theory Spec2Isabelle
  imports Complex_Main "HOL-Library.Multiset"
begin

section \<open>Common data\<close>

text \<open>
  The Python sources compute with double-precision floats. Times, onsets and durations are
  only added, multiplied and compared; the embedding idealises them as \<^typ>\<open>real\<close>. The
  performed velocity is rounded to a whole number, and there the last bit of a double
  decides which way a tie goes: that computation is modelled with the rounding of IEEE 754
  doubles (subsection "Double precision" below). Inputs are finite numbers; NaN does not
  arise from them in the operations modelled. Python's unbounded integers are \<^typ>\<open>int\<close>.
\<close>

datatype py_error = IndexError | AttributeError | UnboundLocalError | TypeError | ValueError

text \<open>Python list indexing \<^verbatim>\<open>xs[i]\<close>: a negative index counts from the end, an index
  outside \<open>-len \<dots> len-1\<close> raises IndexError.\<close>

definition py_index :: "'a list \<Rightarrow> int \<Rightarrow> py_error + 'a" where
  "py_index xs i =
     (if 0 \<le> i \<and> i < int (length xs) then Inr (xs ! nat i)
      else if i < 0 \<and> - int (length xs) \<le> i then Inr (xs ! nat (int (length xs) + i))
      else Inl IndexError)"

section \<open>The live control surface of \<^verbatim>\<open>BasisMixerMidiThread\<close>\<close>

text \<open>The attributes of \<^verbatim>\<open>BasisMixerMidiThread\<close> that another thread may write while \<^verbatim>\<open>run\<close>
  is under way (\<^verbatim>\<open>__init__\<close>: \<^verbatim>\<open>self.vel = 64\<close>, \<^verbatim>\<open>self.tempo = 1\<close>).\<close>

record surface =
  vel :: real
  tempo :: real

text \<open>\<^verbatim>\<open>BasisMixerMidiThread.set_velocity\<close> and \<^verbatim>\<open>set_tempo\<close>: plain attribute writes.\<close>

definition BasisMixerMidiThread_set_velocity :: "surface \<Rightarrow> real \<Rightarrow> surface" where
  "BasisMixerMidiThread_set_velocity t v = t\<lparr>vel := v\<rparr>"

definition BasisMixerMidiThread_set_tempo :: "surface \<Rightarrow> real \<Rightarrow> surface" where
  "BasisMixerMidiThread_set_tempo t v = t\<lparr>tempo := v\<rparr>"

section \<open>The controller: \<^verbatim>\<open>standalone.py\<close>, class LeapControl\<close>

text \<open>
  The playback thread of the controller is an object of the class \<^verbatim>\<open>BMThread\<close>, which
  \<^verbatim>\<open>standalone.py\<close> imports from \<^verbatim>\<open>midi_thread\<close> and which is not in the sources. The
  controller only calls methods on it. The embedding keeps, in place of the object, the
  calls the controller has made on it, in order; what \<^verbatim>\<open>BMThread\<close> does with them is not
  modelled. \<^verbatim>\<open>playback_thread\<close> is \<^verbatim>\<open>None\<close> until \<^verbatim>\<open>play\<close> has made a thread.
\<close>

datatype thread_call = Set_tempo real | Set_scaler real | Set_velocity real | Start | Stop_playing

record leap_control =
  song_list :: "string list"
  cur_song_id :: int
  cur_song :: string
  playback_thread :: "thread_call list option"

text \<open>
  \<^verbatim>\<open>LeapControl.select_song\<close>. The index is assigned before the list is read, so when the
  read raises, the index has already changed: the result is the exception (if any) together
  with the state the object is left in.
\<close>

definition select_song :: "leap_control \<Rightarrow> int \<Rightarrow> py_error option \<times> leap_control" where
  "select_song lc val =
     (if val < int (length (song_list lc)) then
        (let lc1 = lc\<lparr>cur_song_id := val\<rparr>
         in case py_index (song_list lc1) (cur_song_id lc1) of
              Inl e \<Rightarrow> (Some e, lc1)
            | Inr s \<Rightarrow> (None, lc1\<lparr>cur_song := s\<rparr>))
      else (None, lc))"

text \<open>
  \<^verbatim>\<open>LeapControl.set_velocity\<close>: the local \<^verbatim>\<open>out\<close> is unbound until one of the two
  \<^verbatim>\<open>if\<close> statements assigns it. The value is handed to the \<^verbatim>\<open>set_velocity\<close> of the playback
  thread: the call is recorded with its argument. Without a thread the attribute lookup on
  \<^verbatim>\<open>None\<close> raises AttributeError.
\<close>

definition velocity_out :: "real \<Rightarrow> real option" where
  "velocity_out val =
     (let out0 = None;
          out1 = (if val \<le> 64 then Some ((0.5 / 64.0) * val + 0.5) else out0);
          out2 = (if val > 64 then Some ((2.0 / 127.0) * val) else out1)
      in out2)"

definition set_velocity :: "leap_control \<Rightarrow> real \<Rightarrow> py_error + leap_control" where
  "set_velocity lc val =
     (case velocity_out val of
        None \<Rightarrow> Inl UnboundLocalError
      | Some out \<Rightarrow>
          (case playback_thread lc of
             None \<Rightarrow> Inl AttributeError
           | Some calls \<Rightarrow> Inr (lc\<lparr>playback_thread := Some (calls @ [Set_velocity out])\<rparr>)))"

text \<open>\<^verbatim>\<open>LeapControl.stop\<close>: when there is a playback thread, \<^verbatim>\<open>stop_playing()\<close> is called on
  it. No class of the sources has a method of that name.\<close>

definition stop :: "leap_control \<Rightarrow> leap_control" where
  "stop lc =
     (case playback_thread lc of
        None \<Rightarrow> lc
      | Some calls \<Rightarrow> lc\<lparr>playback_thread := Some (calls @ [Stop_playing])\<rparr>)"

text \<open>
  Modelled from the spec: what the velocity setter of the playback thread expects. The
  setter itself (\<^verbatim>\<open>BMThread.set_velocity\<close>) is not in the sources; the spec gives the
  velocity level of the live control surface as an "integer, valid MIDI range" (data model,
  and \<^verbatim>\<open>set_velocity(value: integer in MIDI range)\<close>), that is a whole number from 0 to 127.
\<close>

definition is_midi_velocity :: "real \<Rightarrow> bool" where
  "is_midi_velocity x \<longleftrightarrow> real_of_int \<lfloor>x\<rfloor> = x \<and> 0 \<le> x \<and> x \<le> 127"

text \<open>A controller with two songs, after \<^verbatim>\<open>play\<close> has made a thread (\<^verbatim>\<open>set_tempo(1.0)\<close>,
  \<^verbatim>\<open>set_scaler(0.0)\<close>, \<^verbatim>\<open>set_velocity(50.0)\<close>, \<^verbatim>\<open>start()\<close>).\<close>

definition lc0 :: leap_control where
  "lc0 = \<lparr>song_list = [''a.txt'', ''b.txt''], cur_song_id = 0, cur_song = ''a.txt'',
          playback_thread = Some [Set_tempo 1, Set_scaler 0, Set_velocity 50, Start]\<rparr>"

section \<open>Literal playback: \<^verbatim>\<open>midi_thread.py\<close>, class MidiThread\<close>

text \<open>
  A mido message, as far as the sources read it: its type, and the attributes
  \<^verbatim>\<open>velocity\<close>, \<^verbatim>\<open>note\<close> and \<^verbatim>\<open>time\<close>. Velocity and note are data bytes: mido accepts
  only the integers from 0 to 127 for them, when a message is made and when it is copied
  with a new value.
\<close>

datatype msg_type = NoteOn | NoteOff | OtherType

record message =
  mtype :: msg_type
  velocity :: int
  mnote :: int
  time :: real

definition data_byte :: "int \<Rightarrow> bool" where
  "data_byte i \<longleftrightarrow> 0 \<le> i \<and> i \<le> 127"

text \<open>
  Iterating over a \<^verbatim>\<open>mido.MidiFile\<close> yields the messages of all tracks in time order, each
  with the time in seconds since the message before: the channel messages (objects of
  class \<^verbatim>\<open>Message\<close>) and the meta messages of the file as well (objects of class
  \<^verbatim>\<open>MetaMessage\<close>: track name, tempo, end of track and so on), of which only the time
  matters here. \<^verbatim>\<open>run\<close> does not filter them.
\<close>

datatype file_msg = is_Channel: Channel (channel_of: message) | Meta (meta_time: real)

definition file_time :: "file_msg \<Rightarrow> real" where
  "file_time m = (case m of Channel msg \<Rightarrow> time msg | Meta t \<Rightarrow> t)"

text \<open>
  \<^verbatim>\<open>MidiThread.vel\<close> (initially \<^verbatim>\<open>None\<close>) and \<^verbatim>\<open>MidiThread.tempo\<close>. The setters are plain
  attribute writes made by another thread and store what they are given: an integer or a
  float. \<^verbatim>\<open>run\<close> reads \<^verbatim>\<open>self.vel\<close> and \<^verbatim>\<open>self.tempo\<close> inside its loop, for every message
  (the test of \<^verbatim>\<open>self.vel\<close> and its use in one pass are taken to see the same value). A run
  is therefore given the values the attributes hold while its \<open>i\<close>-th message is processed,
  as a function of \<open>i\<close>. Opening the port and reading the file happen before the loop and
  are not modelled.
\<close>

datatype py_value = PyInt int | PyFloat real

record literal_ctl =
  lvel :: "py_value option"
  ltempo :: real

text \<open>\<^verbatim>\<open>msg.copy(velocity=v)\<close>: mido checks the new data byte and raises TypeError when it is
  not an integer, ValueError when it is not in the range 0 to 127.\<close>

definition msg_copy_velocity :: "message \<Rightarrow> py_value \<Rightarrow> py_error + message" where
  "msg_copy_velocity msg v =
     (case v of
        PyFloat x \<Rightarrow> Inl TypeError
      | PyInt i \<Rightarrow> if data_byte i then Inr (msg\<lparr>velocity := i\<rparr>) else Inl ValueError)"

text \<open>The message \<^verbatim>\<open>play_msg\<close> of the loop body, for a channel message.\<close>

definition play_msg :: "literal_ctl \<Rightarrow> message \<Rightarrow> py_error + message" where
  "play_msg c msg =
     (if mtype msg = NoteOn then
        (if velocity msg \<noteq> 0 then
           (case lvel c of
              Some v \<Rightarrow> msg_copy_velocity msg v
            | None \<Rightarrow> Inr msg)
         else Inr msg)
      else Inr msg)"

text \<open>\<^verbatim>\<open>time.sleep(d)\<close> raises ValueError for a negative duration.\<close>

definition time_sleep :: "real \<Rightarrow> py_error option" where
  "time_sleep d = (if d < 0 then Some ValueError else None)"

text \<open>
  What a run does is recorded as the list of its sleeps and sends. \<^verbatim>\<open>outport.send\<close> accepts
  objects of class \<^verbatim>\<open>Message\<close> only and raises TypeError for a meta message, after the
  sleep for it. One pass of the loop body gives the actions of the pass and the exception
  that ends it, if any.
\<close>

datatype action = Slept real | Sent message

definition literal_step :: "literal_ctl \<Rightarrow> file_msg \<Rightarrow> action list \<times> py_error option" where
  "literal_step c m =
     (case m of
        Channel msg \<Rightarrow>
          (case play_msg c msg of
             Inl e \<Rightarrow> ([], Some e)
           | Inr pm \<Rightarrow>
               (case time_sleep (time pm * ltempo c) of
                  Some e \<Rightarrow> ([], Some e)
                | None \<Rightarrow> ([Slept (time pm * ltempo c), Sent pm], None)))
      | Meta t \<Rightarrow>
          (case time_sleep (t * ltempo c) of
             Some e \<Rightarrow> ([], Some e)
           | None \<Rightarrow> ([Slept (t * ltempo c)], Some TypeError)))"

text \<open>The loop: an exception ends the run, and what was done before it stays done.\<close>

fun midi_run :: "(nat \<Rightarrow> literal_ctl) \<Rightarrow> nat \<Rightarrow> file_msg list \<Rightarrow> action list \<times> py_error option" where
  "midi_run ctl i [] = ([], None)"
| "midi_run ctl i (m # ms) =
     (case literal_step (ctl i) m of
        (acts, Some e) \<Rightarrow> (acts, Some e)
      | (acts, None) \<Rightarrow> (acts @ fst (midi_run ctl (Suc i) ms), snd (midi_run ctl (Suc i) ms)))"

definition MidiThread_run :: "(nat \<Rightarrow> literal_ctl) \<Rightarrow> file_msg list \<Rightarrow> action list \<times> py_error option" where
  "MidiThread_run ctl msgs = midi_run ctl 0 msgs"


section \<open>Expressive playback: \<^verbatim>\<open>midi_thread.py\<close>, class BasisMixerMidiThread\<close>

subsection \<open>The score dictionary\<close>

text \<open>
  \<^verbatim>\<open>score_dict[on]\<close> is the tuple \<^verbatim>\<open>(pitch, ioi, dur, vt, vd, lbpr, tim, lart, mel)\<close>. The
  arrays of one score position are parallel, one entry per note, and numpy broadcasts a
  scalar over them; the position is modelled as the list of its notes, each with its own
  entry of every per-note parameter, and the two parameters of the accumulator
  (\<^verbatim>\<open>ioi\<close>, \<^verbatim>\<open>lbpr\<close>) once per position.
\<close>

record note_params =
  pitch :: int
  dur :: real
  vt :: real
  vd :: real
  tim :: real
  lart :: real
  mel :: real

record score_position =
  ioi :: real
  lbpr :: real
  chord :: "note_params list"

text \<open>The dictionary as an association list; \<^verbatim>\<open>unique_onsets\<close> is the sorted array of its
  keys, and the loop reads \<^verbatim>\<open>score_dict[on]\<close> for each of them in turn.\<close>

type_synonym score_dict = "(real \<times> score_position) list"

definition unique_onsets :: "score_dict \<Rightarrow> real list" where
  "unique_onsets d = sort (remdups (map fst d))"

definition score_positions :: "score_dict \<Rightarrow> score_position list" where
  "score_positions d =
     concat (map (\<lambda>on. case map_of d on of Some p \<Rightarrow> [p] | None \<Rightarrow> []) (unique_onsets d))"

text \<open>
  Modelled from the spec: the dictionary is made by \<^verbatim>\<open>load_bm_preds\<close> of the package
  \<^verbatim>\<open>basismixer\<close>, which is not in the sources. The data model of the spec makes \<^verbatim>\<open>ioi\<close> the
  "inter-onset interval to the previous position": the distance in score time from the
  position before, in ascending key order, which is not negative.
\<close>

definition ioi_intervals :: "score_dict \<Rightarrow> bool" where
  "ioi_intervals d \<longleftrightarrow> (\<forall>p\<in>set (score_positions d). 0 \<le> ioi p)"

subsection \<open>The numerical performance model\<close>

text \<open>\<^verbatim>\<open>eq_onset = prev_eq_onset + (2 ** lbpr) * bpr_a * ioi\<close>, with \<^verbatim>\<open>bpr_a = self.tempo\<close>.\<close>

definition eq_onset_of :: "real \<Rightarrow> surface \<Rightarrow> score_position \<Rightarrow> real" where
  "eq_onset_of prev_eq_onset c p = prev_eq_onset + (2 powr lbpr p) * tempo c * ioi p"

text \<open>The values the accumulator takes in the loop over the score positions: \<open>ctl k\<close> is the
  state of the control surface when position \<open>k\<close> is reached.\<close>

fun eq_onsets :: "real \<Rightarrow> (nat \<Rightarrow> surface) \<Rightarrow> nat \<Rightarrow> score_position list \<Rightarrow> real list" where
  "eq_onsets prev_eq_onset ctl k [] = []"
| "eq_onsets prev_eq_onset ctl k (p # ps) =
     eq_onset_of prev_eq_onset (ctl k) p #
       eq_onsets (eq_onset_of prev_eq_onset (ctl k) p) ctl (Suc k) ps"

definition run_eq_onsets :: "(nat \<Rightarrow> surface) \<Rightarrow> score_dict \<Rightarrow> real list" where
  "run_eq_onsets ctl d = eq_onsets 0.5 ctl 0 (score_positions d)"

subsection \<open>Double precision\<close>

text \<open>Rounding to the nearest whole number, a tie to the even one.\<close>

definition round_half_even :: "real \<Rightarrow> int" where
  "round_half_even x =
     (if x - real_of_int \<lfloor>x\<rfloor> < 1/2 then \<lfloor>x\<rfloor>
      else if 1/2 < x - real_of_int \<lfloor>x\<rfloor> then \<lfloor>x\<rfloor> + 1
      else if even \<lfloor>x\<rfloor> then \<lfloor>x\<rfloor> else \<lfloor>x\<rfloor> + 1)"

text \<open>
  The exponent \<open>e\<close> of the binade of a positive \<open>x\<close>: \<open>2^e \<le> x < 2^(e+1)\<close>, kept within the
  exponent range \<open>-1022 \<dots> 1023\<close> of a double (below \<open>2^-1022\<close> lie the subnormal numbers,
  which share the exponent \<open>-1022\<close>).
\<close>

function binade_up :: "real \<Rightarrow> int \<Rightarrow> int" where
  "binade_up x e = (if x < 2 \<or> 1023 \<le> e then e else binade_up (x / 2) (e + 1))"
  by pat_completeness auto
termination
  by (relation "measure (\<lambda>(x, e). nat (1023 - e))") auto

function binade_down :: "real \<Rightarrow> int \<Rightarrow> int" where
  "binade_down x e = (if 1 \<le> x \<or> e \<le> - 1022 then e else binade_down (2 * x) (e - 1))"
  by pat_completeness auto
termination
  by (relation "measure (\<lambda>(x, e). nat (e + 1022))") auto

declare binade_up.simps [simp del] binade_down.simps [simp del]

definition binade :: "real \<Rightarrow> int" where
  "binade x = (if 1 \<le> \<bar>x\<bar> then binade_up \<bar>x\<bar> 0 else binade_down \<bar>x\<bar> 0)"

definition pow2 :: "int \<Rightarrow> real" where
  "pow2 e = (if 0 \<le> e then 2 ^ nat e else 1 / 2 ^ nat (- e))"

text \<open>The distance between neighbouring doubles in the binade of \<open>x\<close>: a double has a
  significand of 53 bits.\<close>

definition ulp :: "real \<Rightarrow> real" where
  "ulp x = pow2 (binade x - 52)"

text \<open>
  The result of a double operation whose operands are finite: a finite number or an
  infinity. \<open>fl64 x\<close> is the double that the exact result \<open>x\<close> is rounded to (to nearest, a
  tie to the even significand). The largest double is \<open>2^1024 - 2^971\<close>; an exact result at
  or beyond \<open>2^1024 - 2^970\<close>, half way from there to \<open>2^1024\<close>, overflows.
\<close>

datatype fp = Fin real | PInf | NInf

definition fl64 :: "real \<Rightarrow> fp" where
  "fl64 x =
     (if 2 ^ 1024 - 2 ^ 970 \<le> x then PInf
      else if x \<le> - (2 ^ 1024 - 2 ^ 970) then NInf
      else Fin (real_of_int (round_half_even (x / ulp x)) * ulp x))"

text \<open>The product of two doubles, and a double subtracted from an earlier result.\<close>

definition fmul :: "real \<Rightarrow> real \<Rightarrow> fp" where
  "fmul x y = fl64 (x * y)"

definition fsub :: "fp \<Rightarrow> real \<Rightarrow> fp" where
  "fsub a y = (case a of Fin x \<Rightarrow> fl64 (x - y) | PInf \<Rightarrow> PInf | NInf \<Rightarrow> NInf)"

text \<open>\<^verbatim>\<open>np.round\<close> rounds to the nearest whole number and a tie to the even one (the result
  is a double again, and exact); \<^verbatim>\<open>np.clip(a, lo, hi)\<close> is \<^verbatim>\<open>minimum(maximum(a, lo), hi)\<close>;
  \<^verbatim>\<open>astype(np.int)\<close> drops the fractional part.\<close>

definition np_round :: "fp \<Rightarrow> fp" where
  "np_round a = (case a of Fin x \<Rightarrow> Fin (real_of_int (round_half_even x)) | PInf \<Rightarrow> PInf | NInf \<Rightarrow> NInf)"

definition np_clip :: "fp \<Rightarrow> real \<Rightarrow> real \<Rightarrow> real" where
  "np_clip a lo hi = (case a of Fin x \<Rightarrow> min (max x lo) hi | PInf \<Rightarrow> hi | NInf \<Rightarrow> min lo hi)"

definition astype_int :: "real \<Rightarrow> int" where
  "astype_int x = (if 0 \<le> x then \<lfloor>x\<rfloor> else \<lceil>x\<rceil>)"

subsection \<open>The performed velocity and duration\<close>

text \<open>\<^verbatim>\<open>np.clip(np.round((vt * vel_a - vd)), self.vel_min, self.vel_max).astype(np.int)\<close>, for
  one note; \<^verbatim>\<open>vt\<close> and \<^verbatim>\<open>vd\<close> are arrays of doubles, \<^verbatim>\<open>vel_min\<close> and \<^verbatim>\<open>vel_max\<close> are the
  integer MIDI velocities of the constructor.\<close>

definition perf_vel_of :: "int \<Rightarrow> int \<Rightarrow> surface \<Rightarrow> note_params \<Rightarrow> int" where
  "perf_vel_of vel_min vel_max c n =
     astype_int (np_clip (np_round (fsub (fmul (vt n) (vel c)) (vd n)))
                   (real_of_int vel_min) (real_of_int vel_max))"

text \<open>\<^verbatim>\<open>(2 ** lart) * bpr_a * dur\<close>, for one note.\<close>

definition perf_duration_of :: "surface \<Rightarrow> note_params \<Rightarrow> real" where
  "perf_duration_of c n = (2 powr lart n) * tempo c * dur n"

subsection \<open>\<^verbatim>\<open>np.argsort\<close>\<close>

text \<open>
  \<^verbatim>\<open>np.argsort(perf_onset)\<close> is called with numpy's default \<^verbatim>\<open>kind='quicksort'\<close>, which numpy
  documents as not stable. For an array of doubles this is the indirect introsort of
  numpy's \<^verbatim>\<open>npysort/quicksort\<close> (\<^verbatim>\<open>aquicksort\<close>), in every numpy release that still has the
  \<^verbatim>\<open>np.int\<close> used by the source: the index array \<^verbatim>\<open>tosort\<close> starts as \<open>0, \<dots>, n-1\<close>; a range
  \<open>pl \<dots> pr\<close> with \<open>pr - pl > 15\<close> is partitioned around the median of its first, middle and
  last key, the smaller part is continued with and the larger one pushed on a stack; a
  range with \<open>pr - pl \<le> 15\<close> is sorted by insertion; a range popped from the stack when the
  depth budget \<open>2 * msb(n)\<close> is used up is sorted by \<^verbatim>\<open>aheapsort\<close>. Keys are compared with
  \<open><\<close> only. The model follows that code statement by statement on lists; \<open>v\<close> is the
  key array, \<open>ts\<close> the index array, \<open>p_i\<close>, \<open>p_j\<close>, \<open>p_k\<close> stand for the pointers
  \<^verbatim>\<open>pi\<close>, \<^verbatim>\<open>pj\<close>, \<^verbatim>\<open>pk\<close>.
\<close>

text \<open>\<^verbatim>\<open>INTP_SWAP(*a, *b)\<close>.\<close>

definition swap_at :: "nat \<Rightarrow> nat \<Rightarrow> nat list \<Rightarrow> nat list" where
  "swap_at i j ts = ts[i := ts ! j, j := ts ! i]"

text \<open>The three conditional swaps that order the keys at \<open>pl\<close>, \<open>pm\<close>, \<open>pr\<close>.\<close>

definition median3 :: "real list \<Rightarrow> nat list \<Rightarrow> nat \<Rightarrow> nat \<Rightarrow> nat \<Rightarrow> nat list" where
  "median3 v ts pl pm pr =
     (let ts1 = (if v ! (ts ! pm) < v ! (ts ! pl) then swap_at pm pl ts else ts);
          ts2 = (if v ! (ts1 ! pr) < v ! (ts1 ! pm) then swap_at pr pm ts1 else ts1);
          ts3 = (if v ! (ts2 ! pm) < v ! (ts2 ! pl) then swap_at pm pl ts2 else ts2)
      in ts3)"

text \<open>\<^verbatim>\<open>do ++pi; while (v[*pi] < vp)\<close> and \<^verbatim>\<open>do --pj; while (vp < v[*pj])\<close>. In the C code
  the keys left at \<open>pl\<close> and \<open>pr - 1\<close> by the median step stop both scans inside the range; the
  model also stops them at the ends of the array.\<close>

function scan_up :: "real list \<Rightarrow> nat list \<Rightarrow> real \<Rightarrow> nat \<Rightarrow> nat" where
  "scan_up v ts vp p_i =
     (if Suc p_i < length ts \<and> v ! (ts ! Suc p_i) < vp then scan_up v ts vp (Suc p_i) else Suc p_i)"
  by pat_completeness auto
termination
  by (relation "measure (\<lambda>(v, ts, vp, p_i). length ts - p_i)") auto

declare scan_up.simps [simp del]

fun scan_down :: "real list \<Rightarrow> nat list \<Rightarrow> real \<Rightarrow> nat \<Rightarrow> nat" where
  "scan_down v ts vp 0 = 0"
| "scan_down v ts vp (Suc p_j) =
     (if 0 < p_j \<and> vp < v ! (ts ! p_j) then scan_down v ts vp p_j else p_j)"

lemma scan_up_gt: "p_i < scan_up v ts vp p_i"
  by (induction v ts vp p_i rule: scan_up.induct) (subst scan_up.simps, auto)

lemma scan_down_le: "scan_down v ts vp p_j \<le> p_j"
  by (induction v ts vp p_j rule: scan_down.induct) auto

text \<open>The \<^verbatim>\<open>for (;;)\<close> loop of the partition: scan, stop when the pointers meet, else swap.\<close>

function part_loop :: "real list \<Rightarrow> nat list \<Rightarrow> real \<Rightarrow> nat \<Rightarrow> nat \<Rightarrow> nat list \<times> nat" where
  "part_loop v ts vp p_i p_j =
     (if scan_up v ts vp p_i < scan_down v ts vp p_j
      then part_loop v (swap_at (scan_up v ts vp p_i) (scan_down v ts vp p_j) ts) vp
             (scan_up v ts vp p_i) (scan_down v ts vp p_j)
      else (ts, scan_up v ts vp p_i))"
  by pat_completeness auto
termination
proof (relation "measure (\<lambda>(v, ts, vp, p_i, p_j). p_j - p_i)", goal_cases)
  case 1
  then show ?case by simp
next
  case (2 v ts vp p_i p_j)
  then show ?case
    using scan_up_gt [of p_i v ts vp] scan_down_le [of v ts vp p_j] by simp
qed

declare part_loop.simps [simp del]

definition partition_step :: "real list \<Rightarrow> nat list \<Rightarrow> nat \<Rightarrow> nat \<Rightarrow> nat list \<times> nat" where
  "partition_step v ts pl pr =
     (let pm = pl + (pr - pl) div 2;
          ts3 = median3 v ts pl pm pr;
          vp = v ! (ts3 ! pm);
          ts4 = swap_at pm (pr - 1) ts3;
          (ts5, p_i) = part_loop v ts4 vp pl (pr - 1)
      in (swap_at p_i (pr - 1) ts5, p_i))"

text \<open>The insertion sort of a range: \<^verbatim>\<open>while (pj > pl && vp < v[*pk]) *pj-- = *pk--;\<close> and
  then \<^verbatim>\<open>*pj = vi\<close>, for \<open>p_i\<close> from \<open>pl + 1\<close> to \<open>pr\<close>.\<close>

fun ins_shift :: "real list \<Rightarrow> real \<Rightarrow> nat \<Rightarrow> nat list \<Rightarrow> nat \<Rightarrow> nat list \<times> nat" where
  "ins_shift v vp pl ts 0 = (ts, 0)"
| "ins_shift v vp pl ts (Suc p_k) =
     (if pl < Suc p_k \<and> vp < v ! (ts ! p_k) then ins_shift v vp pl (ts[Suc p_k := ts ! p_k]) p_k
      else (ts, Suc p_k))"

definition insert_at :: "real list \<Rightarrow> nat \<Rightarrow> nat list \<Rightarrow> nat \<Rightarrow> nat list" where
  "insert_at v pl ts p_i =
     (let vi = ts ! p_i; (ts', p_j) = ins_shift v (v ! vi) pl ts p_i in ts'[p_j := vi])"

definition insertion_sort_range :: "real list \<Rightarrow> nat list \<Rightarrow> nat \<Rightarrow> nat \<Rightarrow> nat list" where
  "insertion_sort_range v ts pl pr = foldl (insert_at v pl) ts [Suc pl ..< Suc pr]"

text \<open>\<^verbatim>\<open>aheapsort\<close> on the \<open>n\<close> entries from index \<open>base\<close> on; the C code addresses them from
  1, so its \<^verbatim>\<open>a[k]\<close> is the entry at \<open>base + k - 1\<close>. \<open>sift_down\<close> is the inner loop shared by
  the two phases, \<open>heap_build\<close> the loop \<^verbatim>\<open>for (l = n>>1; l > 0; --l)\<close> and \<open>heap_extract\<close> the
  loop \<^verbatim>\<open>for (; n > 1;)\<close>.\<close>

function sift_down ::
  "real list \<Rightarrow> nat \<Rightarrow> nat \<Rightarrow> nat \<Rightarrow> nat list \<Rightarrow> nat \<Rightarrow> nat \<Rightarrow> nat list \<times> nat" where
  "sift_down v base n tmp ts i j =
     (if 0 < j \<and> j \<le> n then
        (let j1 = (if j < n \<and> v ! (ts ! (base + j - 1)) < v ! (ts ! (base + j)) then j + 1 else j)
         in if v ! tmp < v ! (ts ! (base + j1 - 1))
            then sift_down v base n tmp (ts[base + i - 1 := ts ! (base + j1 - 1)]) j1 (j1 + j1)
            else (ts, i))
      else (ts, i))"
  by pat_completeness auto
termination
  apply (relation "measure (\<lambda>(v, base, n, tmp, ts, i, j). Suc n - j)")
   apply simp
  apply (simp split: if_splits)
  apply linarith
  done

declare sift_down.simps [simp del]

definition sift_from :: "real list \<Rightarrow> nat \<Rightarrow> nat \<Rightarrow> nat \<Rightarrow> nat list \<Rightarrow> nat \<Rightarrow> nat list" where
  "sift_from v base n tmp ts l =
     (let (ts', i) = sift_down v base n tmp ts l (l + l) in ts'[base + i - 1 := tmp])"

fun heap_build :: "real list \<Rightarrow> nat \<Rightarrow> nat \<Rightarrow> nat list \<Rightarrow> nat \<Rightarrow> nat list" where
  "heap_build v base n ts 0 = ts"
| "heap_build v base n ts (Suc l) =
     heap_build v base n (sift_from v base n (ts ! (base + Suc l - 1)) ts (Suc l)) l"

fun heap_extract :: "real list \<Rightarrow> nat \<Rightarrow> nat list \<Rightarrow> nat \<Rightarrow> nat list" where
  "heap_extract v base ts (Suc (Suc m)) =
     (let tmp = ts ! (base + Suc m);
          ts1 = ts[base + Suc m := ts ! base]
      in heap_extract v base (sift_from v base (Suc m) tmp ts1 1) (Suc m))"
| "heap_extract v base ts n = ts"

definition aheapsort :: "real list \<Rightarrow> nat list \<Rightarrow> nat \<Rightarrow> nat \<Rightarrow> nat list" where
  "aheapsort v ts base n = heap_extract v base (heap_build v base n ts (n div 2)) n"

text \<open>\<^verbatim>\<open>npy_get_msb\<close>: the number of times \<open>n\<close> can be halved before it is 0, less one.\<close>

function npy_get_msb :: "nat \<Rightarrow> nat" where
  "npy_get_msb n = (if n < 2 then 0 else Suc (npy_get_msb (n div 2)))"
  by pat_completeness auto
termination
  by (relation "measure (\<lambda>n. n)") auto

declare npy_get_msb.simps [simp del]

text \<open>The main loop. \<open>popped\<close> tells whether the range was just taken from the stack (or is
  the whole array at the start): only then is the depth budget tested. The test
  \<open>pl < p_i \<and> p_i < pr\<close> always holds in the C code.\<close>

function aquicksort ::
  "real list \<Rightarrow> nat list \<Rightarrow> nat \<Rightarrow> nat \<Rightarrow> int \<Rightarrow> bool \<Rightarrow> nat list" where
  "aquicksort v ts pl pr cdepth popped =
     (if popped \<and> cdepth < 0 then aheapsort v ts pl (pr - pl + 1)
      else if 15 < pr - pl then
        (case partition_step v ts pl pr of (ts1, p_i) \<Rightarrow>
           if pl < p_i \<and> p_i < pr then
             (if p_i - pl < pr - p_i
              then aquicksort v (aquicksort v ts1 pl (p_i - 1) (cdepth - 1) False)
                     (p_i + 1) pr (cdepth - 1) True
              else aquicksort v (aquicksort v ts1 (p_i + 1) pr (cdepth - 1) False)
                     pl (p_i - 1) (cdepth - 1) True)
           else ts1)
      else insertion_sort_range v ts pl pr)"
  by pat_completeness auto
termination
  by (relation "measure (\<lambda>(v, ts, pl, pr, cdepth, popped). pr - pl)") auto

declare aquicksort.simps [simp del]

definition np_argsort :: "real list \<Rightarrow> nat list" where
  "np_argsort v =
     aquicksort v [0 ..< length v] 0 (length v - 1) (2 * int (npy_get_msb (length v))) True"

text \<open>Indexing an array with an index array, \<^verbatim>\<open>a[idx]\<close>: IndexError when an index is out of
  bounds.\<close>

definition fancy_index :: "'a list \<Rightarrow> nat list \<Rightarrow> py_error + 'a list" where
  "fancy_index a idx =
     (if \<forall>i\<in>set idx. i < length a then Inr (map (\<lambda>i. a ! i) idx) else Inl IndexError)"

subsection \<open>Projection of one score position\<close>

text \<open>The two messages built for a note \<^verbatim>\<open>(p, o, d, v)\<close> of the \<^verbatim>\<open>zip\<close>:
  \<^verbatim>\<open>Message('note_on', velocity=v, note=p, time=o)\<close> and
  \<^verbatim>\<open>Message('note_off', velocity=v, note=p, time=o+d)\<close>. The constructor raises ValueError
  when \<open>v\<close> or \<open>p\<close> is not a data byte (the pitch array is taken to hold integers).\<close>

definition on_msg :: "int \<times> real \<times> real \<times> int \<Rightarrow> message" where
  "on_msg = (\<lambda>(p, ot, d, v). \<lparr>mtype = NoteOn, velocity = v, mnote = p, time = ot\<rparr>)"

definition off_msg :: "int \<times> real \<times> real \<times> int \<Rightarrow> message" where
  "off_msg = (\<lambda>(p, ot, d, v). \<lparr>mtype = NoteOff, velocity = v, mnote = p, time = ot + d\<rparr>)"

definition message_ok :: "int \<times> real \<times> real \<times> int \<Rightarrow> bool" where
  "message_ok = (\<lambda>(p, ot, d, v). data_byte v \<and> data_byte p)"

text \<open>\<^verbatim>\<open>perf_onset = eq_onset - tim\<close> and \<^verbatim>\<open>perf_onset_idx = np.argsort(perf_onset)\<close>.\<close>

definition perf_onset_of :: "real \<Rightarrow> surface \<Rightarrow> score_position \<Rightarrow> real list" where
  "perf_onset_of prev_eq_onset c p = map (\<lambda>n. eq_onset_of prev_eq_onset c p - tim n) (chord p)"

definition perf_onset_idx :: "real \<Rightarrow> surface \<Rightarrow> score_position \<Rightarrow> nat list" where
  "perf_onset_idx prev_eq_onset c p = np_argsort (perf_onset_of prev_eq_onset c p)"

text \<open>
  The body of the loop over the score positions, up to the two message lists: the new
  accumulator value, the note-on messages of the position and the note-off messages it adds
  to the queue. The messages of a position are all made before the first of them is sent,
  so an exception of the constructor ends the run before anything of the position is sent.
\<close>

definition project_position ::
  "int \<Rightarrow> int \<Rightarrow> real \<Rightarrow> surface \<Rightarrow> score_position \<Rightarrow>
   py_error + (real \<times> message list \<times> message list)" where
  "project_position vel_min vel_max prev_eq_onset c p =
     (case fancy_index (perf_onset_of prev_eq_onset c p) (perf_onset_idx prev_eq_onset c p) of
        Inl e \<Rightarrow> Inl e
      | Inr perf_onset \<Rightarrow>
     (case fancy_index (map pitch (chord p)) (perf_onset_idx prev_eq_onset c p) of
        Inl e \<Rightarrow> Inl e
      | Inr pitch_sorted \<Rightarrow>
     (case fancy_index (map (perf_duration_of c) (chord p)) (perf_onset_idx prev_eq_onset c p) of
        Inl e \<Rightarrow> Inl e
      | Inr perf_duration \<Rightarrow>
     (case fancy_index (map (perf_vel_of vel_min vel_max c) (chord p))
             (perf_onset_idx prev_eq_onset c p) of
        Inl e \<Rightarrow> Inl e
      | Inr perf_vel \<Rightarrow>
          if list_all message_ok (zip pitch_sorted (zip perf_onset (zip perf_duration perf_vel)))
          then
            Inr (eq_onset_of prev_eq_onset c p,
                 map on_msg (zip pitch_sorted (zip perf_onset (zip perf_duration perf_vel))),
                 map off_msg (zip pitch_sorted (zip perf_onset (zip perf_duration perf_vel))))
          else Inl ValueError))))"

subsection \<open>The dispatch loops\<close>

text \<open>
  The clock is an input: \<open>clk\<close> is the list of the values \<^verbatim>\<open>time.time() - init_time\<close> that the
  successive reads of the clock return. A loop that polls the clock may go on for ever; when
  the readings supplied are used up inside a loop the result is \<open>None\<close> (the run is still
  polling). What is sent is recorded with the clock reading that released it.
\<close>

type_synonym trace = "(real \<times> message) list"

text \<open>The head of a queue is sent and removed when its time has come.\<close>

definition send_due :: "real \<Rightarrow> message list \<Rightarrow> trace \<Rightarrow> message list \<times> trace" where
  "send_due current_time q sent =
     (case q of
        [] \<Rightarrow> (q, sent)
      | m # ms \<Rightarrow> if time m \<le> current_time then (ms, sent @ [(current_time, m)]) else (q, sent))"

text \<open>\<^verbatim>\<open>while len(on_messages) > 0\<close>: one clock read for the note-on queue and, when the
  note-off queue is not empty, a second one for it.\<close>

fun dispatch ::
  "real list \<Rightarrow> message list \<Rightarrow> message list \<Rightarrow> trace \<Rightarrow>
   (real list \<times> message list \<times> trace) option" where
  "dispatch clk [] offs sent = Some (clk, offs, sent)"
| "dispatch [] (m # ons) offs sent = None"
| "dispatch (c # clk) (m # ons) offs sent =
     (case offs of
        [] \<Rightarrow> dispatch clk (fst (send_due c (m # ons) sent)) [] (snd (send_due c (m # ons) sent))
      | f # fs \<Rightarrow>
          (case clk of
             [] \<Rightarrow> None
           | c2 # clk2 \<Rightarrow>
               dispatch clk2 (fst (send_due c (m # ons) sent))
                 (fst (send_due c2 (f # fs) (snd (send_due c (m # ons) sent))))
                 (snd (send_due c2 (f # fs) (snd (send_due c (m # ons) sent))))))"

text \<open>\<^verbatim>\<open>while len(off_messages) > 0\<close>, after the last position.\<close>

fun drain ::
  "real list \<Rightarrow> message list \<Rightarrow> trace \<Rightarrow> (real list \<times> message list \<times> trace) option" where
  "drain clk [] sent = Some (clk, [], sent)"
| "drain [] (f # fs) sent = None"
| "drain (c # clk) (f # fs) sent =
     drain clk (fst (send_due c (f # fs) sent)) (snd (send_due c (f # fs) sent))"

subsection \<open>\<^verbatim>\<open>BasisMixerMidiThread.run\<close>\<close>

datatype 'a outcome = Done 'a | Raised py_error | Polling

text \<open>
  The loop over the score positions. \<open>ctl k\<close> is what \<^verbatim>\<open>self.tempo\<close> and \<^verbatim>\<open>self.vel\<close> hold
  when position \<open>k\<close> is reached; the note-off queue is sorted by time (Python's stable
  \<^verbatim>\<open>list.sort\<close>) after the messages of the position have been appended.
\<close>

fun play_positions ::
  "int \<Rightarrow> int \<Rightarrow> (nat \<Rightarrow> surface) \<Rightarrow> nat \<Rightarrow> score_position list \<Rightarrow>
   real list \<Rightarrow> real \<Rightarrow> message list \<Rightarrow> trace \<Rightarrow>
   (real list \<times> real \<times> message list \<times> trace) outcome" where
  "play_positions vel_min vel_max ctl k [] clk prev_eq_onset offs sent =
     Done (clk, prev_eq_onset, offs, sent)"
| "play_positions vel_min vel_max ctl k (p # ps) clk prev_eq_onset offs sent =
     (case project_position vel_min vel_max prev_eq_onset (ctl k) p of
        Inl e \<Rightarrow> Raised e
      | Inr (eq_onset, on_messages, new_offs) \<Rightarrow>
          (case dispatch clk on_messages (sort_key time (offs @ new_offs)) sent of
             None \<Rightarrow> Polling
           | Some (clk1, offs1, sent1) \<Rightarrow>
               play_positions vel_min vel_max ctl (Suc k) ps clk1 eq_onset offs1 sent1))"

text \<open>The whole run: what was sent, the note-off queue at the end, and the last value of
  the accumulator. Of what another thread can write, \<^verbatim>\<open>run\<close> reads \<^verbatim>\<open>self.tempo\<close> and
  \<^verbatim>\<open>self.vel\<close> and nothing else: there is no stop flag in it, and the class has no method
  \<^verbatim>\<open>stop_playing\<close>.\<close>

definition BasisMixerMidiThread_run ::
  "int \<Rightarrow> int \<Rightarrow> score_dict \<Rightarrow> (nat \<Rightarrow> surface) \<Rightarrow> real list \<Rightarrow>
   (trace \<times> message list \<times> real) outcome" where
  "BasisMixerMidiThread_run vel_min vel_max d ctl clk =
     (case play_positions vel_min vel_max ctl 0 (score_positions d) clk 0.5 [] [] of
        Done (clk1, prev_eq_onset, offs, sent) \<Rightarrow>
          (case drain clk1 offs sent of
             None \<Rightarrow> Polling
           | Some (clk2, offs2, sent2) \<Rightarrow> Done (sent2, offs2, prev_eq_onset))
      | Raised e \<Rightarrow> Raised e
      | Polling \<Rightarrow> Polling)"

subsection \<open>Notions used in the statements and proofs\<close>

text \<open>The note \<^verbatim>\<open>(p, o, d, v)\<close> that the projection computes for entry \<open>i\<close> of the arrays of a
  position.\<close>

definition projected_note ::
  "int \<Rightarrow> int \<Rightarrow> real \<Rightarrow> surface \<Rightarrow> score_position \<Rightarrow> nat \<Rightarrow> int \<times> real \<times> real \<times> int" where
  "projected_note vel_min vel_max prev_eq_onset c p i =
     (pitch (chord p ! i), perf_onset_of prev_eq_onset c p ! i,
      perf_duration_of c (chord p ! i), perf_vel_of vel_min vel_max c (chord p ! i))"

text \<open>A position all of whose messages can be made: the pitch and the performed velocity
  of every note are data bytes. A list of positions and a velocity band for which this is
  so whatever the control surface holds.\<close>

definition position_ok :: "int \<Rightarrow> int \<Rightarrow> surface \<Rightarrow> score_position \<Rightarrow> bool" where
  "position_ok vel_min vel_max c p \<longleftrightarrow>
     (\<forall>n\<in>set (chord p). data_byte (perf_vel_of vel_min vel_max c n) \<and> data_byte (pitch n))"

definition score_ok :: "int \<Rightarrow> int \<Rightarrow> score_position list \<Rightarrow> bool" where
  "score_ok vel_min vel_max ps \<longleftrightarrow>
     0 \<le> vel_min \<and> vel_min \<le> vel_max \<and> vel_max \<le> 127 \<and>
     (\<forall>p\<in>set ps. \<forall>n\<in>set (chord p). data_byte (pitch n))"

text \<open>Example notes and positions.\<close>

definition note_at :: "int \<Rightarrow> note_params" where
  "note_at k = \<lparr>pitch = k, dur = 1, vt = 1, vd = 0, tim = 0, lart = 0, mel = 0\<rparr>"

definition chord17 :: score_position where
  "chord17 = \<lparr>ioi = 1, lbpr = 0,
     chord = map note_at [60, 61, 62, 63, 64, 65, 66, 67, 68, 69, 70, 71, 72, 73, 74, 75, 76]\<rparr>"

definition chordD :: score_position where
  "chordD = \<lparr>ioi = 3/2, lbpr = 0, chord = [note_at 60, (note_at 62)\<lparr>tim := 1/2\<rparr>]\<rparr>"


text \<open>
  A stable insertion sort that keeps its result reversed: \<open>ins_rev\<close> puts \<open>x\<close> behind every
  element of greater key. It describes what numpy's insertion loop computes.
\<close>

fun ins_rev :: "('a \<Rightarrow> real) \<Rightarrow> 'a \<Rightarrow> 'a list \<Rightarrow> 'a list" where
  "ins_rev f x [] = [x]"
| "ins_rev f x (y # ys) = (if f x < f y then y # ins_rev f x ys else x # y # ys)"


definition sort_rev :: "('a \<Rightarrow> real) \<Rightarrow> 'a list \<Rightarrow> 'a list" where
  "sort_rev f xs = foldl (\<lambda>acc x. ins_rev f x acc) [] xs"

text \<open>
  A note-on and the note-off made with it carry the same pitch and velocity. \<open>sent_keys\<close> is
  the multiset of these pairs over the messages of one type in a trace; \<open>on_time\<close> says that
  nothing was sent before its scheduled time; \<open>balanced\<close> is the invariant of the dispatch
  loops: note-ons sent or pending match the note-offs sent or queued.
\<close>

definition note_key :: "message \<Rightarrow> int \<times> int" where
  "note_key m = (mnote m, velocity m)"

definition sent_keys :: "msg_type \<Rightarrow> trace \<Rightarrow> (int \<times> int) multiset" where
  "sent_keys ty sent = mset (map note_key (filter (\<lambda>m. mtype m = ty) (map snd sent)))"

definition on_time :: "trace \<Rightarrow> bool" where
  "on_time sent \<longleftrightarrow> (\<forall>(c, m)\<in>set sent. time m \<le> c)"

definition balanced :: "message list \<Rightarrow> message list \<Rightarrow> trace \<Rightarrow> bool" where
  "balanced ons offs sent \<longleftrightarrow>
     (\<forall>m\<in>set ons. mtype m = NoteOn) \<and> (\<forall>m\<in>set offs. mtype m = NoteOff) \<and>
     sent_keys NoteOn sent + mset (map note_key ons) =
       sent_keys NoteOff sent + mset (map note_key offs) \<and>
     on_time sent"

text \<open>Example runs.\<close>

definition surf1 :: surface where
  "surf1 = \<lparr>vel = 64, tempo = 1\<rparr>"

definition chordE :: score_position where
  "chordE = \<lparr>ioi = 1/2, lbpr = 0, chord = [note_at 60, (note_at 62)\<lparr>dur := 0\<rparr>]\<rparr>"

definition clkE :: "real list" where
  "clkE = [1, 5/4, 3/2, 7/4, 5/2]"

definition Aon :: message where "Aon = \<lparr>mtype = NoteOn, velocity = 64, mnote = 60, time = 1\<rparr>"
definition Aoff :: message where "Aoff = \<lparr>mtype = NoteOff, velocity = 64, mnote = 60, time = 2\<rparr>"
definition Bon :: message where "Bon = \<lparr>mtype = NoteOn, velocity = 64, mnote = 62, time = 1\<rparr>"
definition Boff :: message where "Boff = \<lparr>mtype = NoteOff, velocity = 64, mnote = 62, time = 1\<rparr>"

definition chordW1 :: score_position where
  "chordW1 = \<lparr>ioi = 1/2, lbpr = 0, chord = [note_at 60]\<rparr>"

definition chordW2 :: score_position where
  "chordW2 = \<lparr>ioi = 1, lbpr = 0, chord = [(note_at 62)\<lparr>dur := 1/2\<rparr>]\<rparr>"

definition clkW :: "real list" where
  "clkW = [1/2, 3/5, 1, 11/10, 2, 21/10, 11/5, 13/5]"

definition Con :: message where "Con = \<lparr>mtype = NoteOn, velocity = 64, mnote = 62, time = 2\<rparr>"
definition Coff :: message where "Coff = \<lparr>mtype = NoteOff, velocity = 64, mnote = 62, time = 5/2\<rparr>"

text \<open>
  The note-on messages that the loop over the score positions builds, position after
  position, each position in the order of its index array; the note-on messages of a
  trace, in the order they were sent; \<open>sent_before\<close>: every note-on of the trace was sent at
  a clock reading before the given time.
\<close>

fun all_on_messages ::
  "int \<Rightarrow> int \<Rightarrow> (nat \<Rightarrow> surface) \<Rightarrow> nat \<Rightarrow> score_position list \<Rightarrow> real \<Rightarrow> message list" where
  "all_on_messages vel_min vel_max ctl k [] prev_eq_onset = []"
| "all_on_messages vel_min vel_max ctl k (p # ps) prev_eq_onset =
     map (\<lambda>i. on_msg (projected_note vel_min vel_max prev_eq_onset (ctl k) p i))
       (perf_onset_idx prev_eq_onset (ctl k) p) @
     all_on_messages vel_min vel_max ctl (Suc k) ps (eq_onset_of prev_eq_onset (ctl k) p)"

definition note_ons :: "trace \<Rightarrow> message list" where
  "note_ons sent = filter (\<lambda>m. mtype m = NoteOn) (map snd sent)"

definition sent_before :: "real \<Rightarrow> trace \<Rightarrow> bool" where
  "sent_before stop_at sent \<longleftrightarrow> (\<forall>(c, m)\<in>set sent. mtype m = NoteOn \<longrightarrow> c < stop_at)"

definition chordS1 :: score_position where
  "chordS1 = \<lparr>ioi = 1/2, lbpr = 0, chord = [(note_at 60)\<lparr>dur := 2\<rparr>, (note_at 62)\<lparr>dur := 2\<rparr>]\<rparr>"

definition chordS2 :: score_position where
  "chordS2 = \<lparr>ioi = 1, lbpr = 0, chord = [note_at 64]\<rparr>"

definition clkS :: "real list" where
  "clkS = [1, 11/10, 6/5, 13/10, 8/5, 31/10, 16/5, 33/10, 17/5]"

definition Son60 :: message where "Son60 = \<lparr>mtype = NoteOn, velocity = 64, mnote = 60, time = 1\<rparr>"
definition Soff60 :: message where "Soff60 = \<lparr>mtype = NoteOff, velocity = 64, mnote = 60, time = 3\<rparr>"
definition Son62 :: message where "Son62 = \<lparr>mtype = NoteOn, velocity = 64, mnote = 62, time = 1\<rparr>"
definition Soff62 :: message where "Soff62 = \<lparr>mtype = NoteOff, velocity = 64, mnote = 62, time = 3\<rparr>"
definition Son64 :: message where "Son64 = \<lparr>mtype = NoteOn, velocity = 64, mnote = 64, time = 2\<rparr>"
definition Soff64 :: message where "Soff64 = \<lparr>mtype = NoteOff, velocity = 64, mnote = 64, time = 3\<rparr>"

definition note0 :: note_params where
  "note0 = \<lparr>pitch = 60, dur = 1, vt = 1, vd = 0, tim = 0, lart = 0, mel = 0\<rparr>"

definition ctl0 :: "nat \<Rightarrow> surface" where
  "ctl0 = (\<lambda>k. \<lparr>vel = 64, tempo = 1\<rparr>)"


definition dictB :: score_dict where
  "dictB = [(1, \<lparr>ioi = -1, lbpr = 0, chord = [note0]\<rparr>),
            (0, \<lparr>ioi = 1, lbpr = 0, chord = [note0]\<rparr>)]"

definition dictC :: score_dict where
  "dictC = [(1, \<lparr>ioi = 1, lbpr = 1, chord = [note0]\<rparr>),
            (0, \<lparr>ioi = 0, lbpr = 0, chord = [note0]\<rparr>)]"

text \<open>Examples for literal playback: four channel messages, the same followed by the end
  of track, and a note that a tempo change falls into.\<close>

definition msgs0 :: "file_msg list" where
  "msgs0 = [Channel \<lparr>mtype = NoteOn, velocity = 80, mnote = 60, time = 0\<rparr>,
            Channel \<lparr>mtype = NoteOn, velocity = 0, mnote = 60, time = 1\<rparr>,
            Channel \<lparr>mtype = NoteOn, velocity = 70, mnote = 62, time = 1/2\<rparr>,
            Channel \<lparr>mtype = NoteOff, velocity = 64, mnote = 62, time = 1\<rparr>]"



definition lctl_fixed :: "nat \<Rightarrow> literal_ctl" where
  "lctl_fixed = (\<lambda>i. \<lparr>lvel = Some (PyInt 100), ltempo = 1\<rparr>)"

definition lctl_late :: "nat \<Rightarrow> literal_ctl" where
  "lctl_late =
     (\<lambda>i. if i < 2 then \<lparr>lvel = Some (PyInt 100), ltempo = 1\<rparr>
          else \<lparr>lvel = Some (PyInt 30), ltempo = 2\<rparr>)"


text \<open>An override that \<^verbatim>\<open>msg.copy\<close> accepts, or none.\<close>

definition override_ok :: "py_value option \<Rightarrow> bool" where
  "override_ok v = (case v of None \<Rightarrow> True | Some (PyInt i) \<Rightarrow> data_byte i | Some (PyFloat x) \<Rightarrow> False)"

text \<open>The event that is sent for a channel message under an override that \<^verbatim>\<open>msg.copy\<close>
  accepts.\<close>

definition override_msg :: "py_value option \<Rightarrow> message \<Rightarrow> message" where
  "override_msg v msg =
     (if mtype msg = NoteOn \<and> velocity msg \<noteq> 0
      then (case v of Some (PyInt i) \<Rightarrow> msg\<lparr>velocity := i\<rparr> | _ \<Rightarrow> msg)
      else msg)"

subsection \<open>Invariants of the sort\<close>

text \<open>The key at the 1-based heap position \<open>k\<close> of the index array \<open>w\<close> (the C code uses
  \<^verbatim>\<open>a = tosort - 1\<close>).\<close>

definition hkey :: "real list \<Rightarrow> nat list \<Rightarrow> nat \<Rightarrow> real" where
  "hkey v w k = v ! (w ! (k - 1))"

text \<open>The heap condition on the positions whose parent is \<open>l\<close> or later: no key exceeds the
  key of its parent.\<close>

definition heap_from :: "real list \<Rightarrow> nat list \<Rightarrow> nat \<Rightarrow> nat \<Rightarrow> bool" where
  "heap_from v w l n \<longleftrightarrow> (\<forall>k. k \<le> n \<and> l \<le> k div 2 \<longrightarrow> hkey v w k \<le> hkey v w (k div 2))"

text \<open>The invariant of \<^verbatim>\<open>sift_down\<close>: the heap condition holds except at the hole \<open>i\<close>, where
  \<open>tmp\<close> is to go; the parent of the hole dominates \<open>tmp\<close> and the children of the hole.\<close>

definition hole_ok :: "real list \<Rightarrow> nat list \<Rightarrow> nat \<Rightarrow> nat \<Rightarrow> nat \<Rightarrow> nat \<Rightarrow> bool" where
  "hole_ok v w l n tmp i \<longleftrightarrow>
     (\<forall>k. k \<le> n \<and> l \<le> k div 2 \<and> k div 2 \<noteq> i \<and> k \<noteq> i \<longrightarrow> hkey v w k \<le> hkey v w (k div 2)) \<and>
     (l \<le> i div 2 \<longrightarrow>
        v ! tmp \<le> hkey v w (i div 2) \<and>
        (\<forall>c. c \<le> n \<and> c div 2 = i \<longrightarrow> hkey v w c \<le> hkey v w (i div 2)))"

text \<open>The invariant of the extraction loop of the heap sort: the entries from \<open>n\<close> on are in
  ascending key order and dominate the first \<open>n\<close> entries.\<close>

definition suffix_ok :: "real list \<Rightarrow> nat list \<Rightarrow> nat \<Rightarrow> bool" where
  "suffix_ok v w n \<longleftrightarrow>
     sorted (map (\<lambda>i. v ! i) (drop n w)) \<and>
     (\<forall>x\<in>set (take n w). \<forall>y\<in>set (drop n w). v ! x \<le> v ! y)"

text \<open>The child that \<^verbatim>\<open>sift_down\<close> compares with \<open>tmp\<close>: the right one when it exists and has
  the larger key.\<close>

definition larger_child :: "real list \<Rightarrow> nat \<Rightarrow> nat \<Rightarrow> nat list \<Rightarrow> nat \<Rightarrow> nat" where
  "larger_child v base n ts j =
     (if j < n \<and> v ! (ts ! (base + j - 1)) < v ! (ts ! (base + j)) then j + 1 else j)"

text \<open>The invariant of the partition loop on the range \<open>pl \<dots> pr\<close> with pivot key \<open>vp\<close>: the
  entries up to \<open>p_i\<close> have keys at most \<open>vp\<close>, those from \<open>p_j\<close> on keys at least \<open>vp\<close>.\<close>

definition part_inv ::
  "real list \<Rightarrow> nat list \<Rightarrow> real \<Rightarrow> nat \<Rightarrow> nat \<Rightarrow> nat \<Rightarrow> nat \<Rightarrow> bool" where
  "part_inv v ts vp pl pr p_i p_j \<longleftrightarrow>
     pl \<le> p_i \<and> p_i < p_j \<and> p_j \<le> pr \<and> pr < length ts \<and>
     (\<forall>k. pl \<le> k \<and> k \<le> p_i \<longrightarrow> v ! (ts ! k) \<le> vp) \<and>
     (\<forall>k. p_j \<le> k \<and> k \<le> pr \<longrightarrow> vp \<le> v ! (ts ! k))"

text \<open>What the partition loop establishes when it returns the array \<open>ts'\<close> and the meeting
  point \<open>r\<close>.\<close>

definition part_post ::
  "real list \<Rightarrow> nat list \<Rightarrow> real \<Rightarrow> nat \<Rightarrow> nat \<Rightarrow> nat \<Rightarrow> nat \<Rightarrow> nat list \<Rightarrow> nat \<Rightarrow> bool" where
  "part_post v ts vp pl pr p_i p_j ts' r \<longleftrightarrow>
     length ts' = length ts \<and> mset ts' = mset ts \<and>
     (\<forall>q. q \<le> p_i \<or> p_j \<le> q \<longrightarrow> ts' ! q = ts ! q) \<and>
     p_i < r \<and> r \<le> p_j \<and>
     (\<forall>k. pl \<le> k \<and> k < r \<longrightarrow> v ! (ts' ! k) \<le> vp) \<and>
     (\<forall>k. r < k \<and> k \<le> pr \<longrightarrow> vp \<le> v ! (ts' ! k)) \<and>
     vp \<le> v ! (ts' ! r)"

section \<open>Song selection\<close>

lemma py_index_in_range:
  "- int (length xs) \<le> i \<Longrightarrow> i < int (length xs) \<Longrightarrow>
   py_index xs i = Inr (xs ! nat (if i < 0 then int (length xs) + i else i))"
  by (simp add: py_index_def)

text \<open>
  C10 as stated fails below \<open>-len(song_list)\<close>: with two songs, \<^verbatim>\<open>select_song(-3)\<close> passes the
  guard \<open>val < len\<close>, stores the index -3 and then raises IndexError at \<^verbatim>\<open>song_list[-3]\<close>;
  the current song is not set.
\<close>

theorem select_song_counterexample:
  "(-3::int) < int (length (song_list lc0)) \<and>
   select_song lc0 (-3) = (Some IndexError, lc0\<lparr>cur_song_id := -3\<rparr>) \<and>
   cur_song (snd (select_song lc0 (-3))) = cur_song lc0"
  by (simp add: select_song_def py_index_def lc0_def Let_def)

text \<open>
  C10, amended: for \<open>val \<ge> len(song_list)\<close> the call changes nothing; for
  \<open>-len(song_list) \<le> val < len(song_list)\<close> it raises nothing, stores \<open>val\<close> as the current
  index and sets the current song to \<^verbatim>\<open>song_list[val]\<close> (Python indexing: a negative
  \<open>val\<close> counts from the end of the list).
\<close>

theorem select_song_amended:
  "(int (length (song_list lc)) \<le> val \<longrightarrow> select_song lc val = (None, lc)) \<and>
   (- int (length (song_list lc)) \<le> val \<and> val < int (length (song_list lc)) \<longrightarrow>
      select_song lc val =
        (None, lc\<lparr>cur_song_id := val,
                  cur_song := song_list lc !
                    nat (if val < 0 then int (length (song_list lc)) + val else val)\<rparr>))"
  by (simp add: select_song_def py_index_in_range Let_def)

theorem select_song_amended_witness:
  "select_song lc0 2 = (None, lc0) \<and>
   select_song lc0 1 = (None, lc0\<lparr>cur_song_id := 1, cur_song := ''b.txt''\<rparr>) \<and>
   select_song lc0 (-1) = (None, lc0\<lparr>cur_song_id := -1, cur_song := ''b.txt''\<rparr>)"
  using select_song_amended [of lc0 2] select_song_amended [of lc0 1]
    select_song_amended [of lc0 "-1"]
  by (simp add: lc0_def)

section \<open>The controller's velocity mapping\<close>

text \<open>
  C9 as stated fails: the raw value 0 is mapped to 0.5, which is not a MIDI velocity, and the
  largest raw value 127 to 2 (the source's own comment gives the target range as [0.5, 2]).
\<close>

theorem set_velocity_counterexample:
  "velocity_out 0 = Some (1/2) \<and> \<not> is_midi_velocity (1/2) \<and>
   set_velocity lc0 0 =
     Inr (lc0\<lparr>playback_thread :=
            Some [Set_tempo 1, Set_scaler 0, Set_velocity 50, Start, Set_velocity (1/2)]\<rparr>) \<and>
   velocity_out 127 = Some 2"
  by (simp add: velocity_out_def is_midi_velocity_def set_velocity_def lc0_def)

text \<open>
  C9, amended: for every raw controller value \<open>val\<close> in [0, 127], \<^verbatim>\<open>LeapControl.set_velocity\<close>
  calls the velocity setter of the playback thread with the real level \<open>val / 128 + 0.5\<close>
  when \<open>val \<le> 64\<close> and \<open>2 * val / 127\<close> when \<open>val > 64\<close>; this level lies in [0.5, 2]. (Without
  a playback thread the call raises AttributeError.)
\<close>

theorem set_velocity_amended:
  "0 \<le> val \<and> val \<le> 127 \<longrightarrow>
     (\<forall>calls. playback_thread lc = Some calls \<longrightarrow>
        set_velocity lc val =
          Inr (lc\<lparr>playback_thread :=
                 Some (calls @ [Set_velocity (if val \<le> 64 then val / 128 + 1/2 else 2 * val / 127)])\<rparr>)) \<and>
     (playback_thread lc = None \<longrightarrow> set_velocity lc val = Inl AttributeError) \<and>
     1/2 \<le> (if val \<le> 64 then val / 128 + 1/2 else 2 * val / 127) \<and>
     (if val \<le> 64 then val / 128 + 1/2 else 2 * val / 127) \<le> 2"
  by (simp add: set_velocity_def velocity_out_def)

theorem set_velocity_amended_witness:
  "set_velocity lc0 127 =
     Inr (lc0\<lparr>playback_thread :=
            Some [Set_tempo 1, Set_scaler 0, Set_velocity 50, Start, Set_velocity 2]\<rparr>) \<and>
   set_velocity lc0 64 =
     Inr (lc0\<lparr>playback_thread :=
            Some [Set_tempo 1, Set_scaler 0, Set_velocity 50, Start, Set_velocity 1]\<rparr>) \<and>
   set_velocity lc0 32 =
     Inr (lc0\<lparr>playback_thread :=
            Some [Set_tempo 1, Set_scaler 0, Set_velocity 50, Start, Set_velocity (3/4)]\<rparr>) \<and>
   set_velocity (lc0\<lparr>playback_thread := None\<rparr>) 32 = Inl AttributeError"
  using set_velocity_amended [of 127 lc0] set_velocity_amended [of 64 lc0]
    set_velocity_amended [of 32 lc0] set_velocity_amended [of 32 "lc0\<lparr>playback_thread := None\<rparr>"]
  by (simp add: lc0_def)

section \<open>The equivalent-onset accumulator\<close>




lemma score_positions_dictB:
  "score_positions dictB =
     [\<lparr>ioi = 1, lbpr = 0, chord = [note0]\<rparr>, \<lparr>ioi = -1, lbpr = 0, chord = [note0]\<rparr>]"
  by (simp add: score_positions_def unique_onsets_def dictB_def)

lemma score_positions_dictC:
  "score_positions dictC =
     [\<lparr>ioi = 0, lbpr = 0, chord = [note0]\<rparr>, \<lparr>ioi = 1, lbpr = 1, chord = [note0]\<rparr>]"
  by (simp add: score_positions_def unique_onsets_def dictC_def)



lemma eq_onsets_sorted:
  "(\<forall>k. 0 < tempo (ctl k)) \<Longrightarrow> (\<forall>p\<in>set ps. 0 \<le> ioi p) \<Longrightarrow>
   sorted (prev # eq_onsets prev ctl k ps)"
proof (induction ps arbitrary: prev k)
  case Nil
  then show ?case by simp
next
  case (Cons p ps)
  let ?e = "eq_onset_of prev (ctl k) p"
  from Cons.prems have "0 \<le> (2 powr lbpr p) * tempo (ctl k) * ioi p"
    by (simp add: less_imp_le)
  then have le: "prev \<le> ?e"
    by (simp add: eq_onset_of_def)
  from Cons.prems have tail: "sorted (?e # eq_onsets ?e ctl (Suc k) ps)"
    by (intro Cons.IH) simp_all
  then have "\<forall>x\<in>set (eq_onsets ?e ctl (Suc k) ps). ?e \<le> x"
    by simp
  with le have "\<forall>x\<in>set (eq_onsets ?e ctl (Suc k) ps). prev \<le> x"
    by (meson order_trans)
  with le tail show ?case by simp
qed

text \<open>
  C6: a score is given with the inter-onset interval of every position, the interval from
  the previous position to it in ascending key order, which is not negative. When the
  tempo read at every position is positive, the accumulator is then non-decreasing from the
  lead-in 0.5 on and from one position to the next. Two positions at the keys 0 and 1, with
  the intervals 0 and 1 and \<open>lbpr\<close> 0 and 1, give 0.5 and 2.5 at tempo 1 (the witness).
\<close>

theorem eq_onset_monotone:
  assumes "\<forall>k. 0 < tempo (ctl k)" and "ioi_intervals d"
  shows "sorted (0.5 # run_eq_onsets ctl d)"
  unfolding run_eq_onsets_def using assms unfolding ioi_intervals_def by (rule eq_onsets_sorted)

theorem eq_onset_monotone_witness:
  "run_eq_onsets ctl0 dictC = [0.5, 2.5] \<and> sorted (0.5 # run_eq_onsets ctl0 dictC)"
proof -
  have 1: "\<forall>k. 0 < tempo (ctl0 k)" by (simp add: ctl0_def)
  have 2: "ioi_intervals dictC" by (simp add: ioi_intervals_def score_positions_dictC)
  from eq_onset_monotone [OF 1 2] show ?thesis
    by (simp add: run_eq_onsets_def score_positions_dictC ctl0_def eq_onset_of_def)
qed

text \<open>The hypothesis on the intervals is needed: the run reads \<^verbatim>\<open>ioi\<close> from the dictionary
  as it is, and a dictionary that held a negative one would make the accumulator
  decrease.\<close>

lemma eq_onset_negative_ioi:
  "\<not> ioi_intervals dictB \<and> run_eq_onsets ctl0 dictB = [1.5, 0.5]"
  by (simp add: run_eq_onsets_def score_positions_dictB ctl0_def eq_onset_of_def
      ioi_intervals_def)

section \<open>The performed velocity\<close>

lemma astype_int_of_int: "astype_int (real_of_int k) = k"
  by (simp add: astype_int_def)

lemma np_clip_of_int:
  "np_clip (Fin (real_of_int r)) (real_of_int lo) (real_of_int hi) = real_of_int (min (max r lo) hi)"
  by (simp add: np_clip_def)

text \<open>\<open>round_half_even\<close> is the nearest whole number, and the even one of the two nearest at
  a tie.\<close>

lemma round_half_even_near:
  "\<bar>real_of_int (round_half_even x) - x\<bar> \<le> 1/2"
  unfolding round_half_even_def by (auto simp add: abs_if) linarith+




text \<open>The double \<open>fl64 x\<close> is within half a unit in the last place of \<open>x\<close>.\<close>

lemma pow2_pos: "0 < pow2 e"
  by (simp add: pow2_def)

lemma fl64_near:
  assumes "fl64 x = Fin y"
  shows "\<bar>y - x\<bar> \<le> ulp x / 2"
proof -
  let ?u = "ulp x"
  have u: "0 < ?u" by (simp add: ulp_def pow2_pos)
  from assms have y: "y = real_of_int (round_half_even (x / ?u)) * ?u"
    by (simp add: fl64_def split: if_splits)
  have "\<bar>real_of_int (round_half_even (x / ?u)) - x / ?u\<bar> * ?u \<le> 1/2 * ?u"
    using round_half_even_near [of "x / ?u"] u by (intro mult_right_mono) simp_all
  moreover have "\<bar>real_of_int (round_half_even (x / ?u)) - x / ?u\<bar> * ?u = \<bar>y - x\<bar>"
  proof -
    have "\<bar>real_of_int (round_half_even (x / ?u)) - x / ?u\<bar> * ?u =
          \<bar>(real_of_int (round_half_even (x / ?u)) - x / ?u) * ?u\<bar>"
      using u by (simp add: abs_mult)
    also have "(real_of_int (round_half_even (x / ?u)) - x / ?u) * ?u = y - x"
      using u by (simp add: y left_diff_distrib)
    finally show ?thesis .
  qed
  ultimately show ?thesis by simp
qed

lemmas fl64_eval =
  fl64_def ulp_def binade_def binade_up.simps binade_down.simps pow2_def round_half_even_def Let_def

lemma fl64_64: "fl64 64 = Fin 64"
  by (simp add: fl64_eval)


text \<open>The double written \<^verbatim>\<open>0.1\<close>, and its product with 645: the exact product lies above
  64.5, the double product is 64.5.\<close>

lemma fl64_tenth: "fl64 (1/10) = Fin (3602879701896397 / 36028797018963968)"
  by (simp add: fl64_eval)



lemma perf_vel_band:
  assumes "vel_min \<le> vel_max"
  shows "vel_min \<le> perf_vel_of vel_min vel_max c n \<and> perf_vel_of vel_min vel_max c n \<le> vel_max"
proof (cases "fsub (fmul (vt n) (vel c)) (vd n)")
  case (Fin y)
  then show ?thesis using assms
    by (simp add: perf_vel_of_def np_round_def np_clip_of_int astype_int_of_int)
next
  case PInf
  then show ?thesis using assms
    by (simp add: perf_vel_of_def np_round_def np_clip_def astype_int_of_int)
next
  case NInf
  then show ?thesis using assms
    by (simp add: perf_vel_of_def np_round_def np_clip_def astype_int_of_int
        of_int_min [symmetric] del: of_int_min)
qed

lemma perf_vel_of_unit:
  "vt n = 1 \<Longrightarrow> vd n = 0 \<Longrightarrow> vel c = 64 \<Longrightarrow> perf_vel_of 30 110 c n = 64"
  by (simp add: perf_vel_of_def fmul_def fsub_def fl64_64 np_round_def np_clip_def
      astype_int_def round_half_even_def)



section \<open>Literal playback\<close>

lemma time_sleep_ok: "0 \<le> d \<Longrightarrow> time_sleep d = None"
  by (simp add: time_sleep_def)

lemma play_msg_ok:
  "override_ok (lvel c) \<Longrightarrow> play_msg c msg = Inr (override_msg (lvel c) msg)"
  by (auto simp add: play_msg_def override_ok_def override_msg_def msg_copy_velocity_def
      data_byte_def split: option.splits py_value.splits)

lemma time_override_msg: "time (override_msg v msg) = time msg"
  by (simp add: override_msg_def split: option.splits py_value.splits)

lemma literal_step_channel:
  "override_ok (lvel c) \<Longrightarrow> 0 \<le> time msg * ltempo c \<Longrightarrow>
   literal_step c (Channel msg) =
     ([Slept (time msg * ltempo c), Sent (override_msg (lvel c) msg)], None)"
  by (simp add: literal_step_def play_msg_ok time_override_msg time_sleep_ok)



lemma midi_run_nth_ok:
  assumes "k < length msgs"
    and "\<forall>j \<le> k. is_Channel (msgs ! j) \<and> override_ok (lvel (ctl (i + j))) \<and>
             0 \<le> file_time (msgs ! j) * ltempo (ctl (i + j))"
  shows "fst (midi_run ctl i msgs) ! (2 * k) =
           Slept (time (channel_of (msgs ! k)) * ltempo (ctl (i + k))) \<and>
         fst (midi_run ctl i msgs) ! Suc (2 * k) =
           Sent (override_msg (lvel (ctl (i + k))) (channel_of (msgs ! k)))"
  using assms
proof (induction msgs arbitrary: i k)
  case Nil
  then show ?case by simp
next
  case (Cons m ms)
  from Cons.prems(2) [rule_format, of 0]
  obtain msg where m: "m = Channel msg" and h0: "override_ok (lvel (ctl i))"
    "0 \<le> time msg * ltempo (ctl i)"
    by (cases m) (simp_all add: file_time_def)
  have step: "literal_step (ctl i) (Channel msg) =
      ([Slept (time msg * ltempo (ctl i)), Sent (override_msg (lvel (ctl i)) msg)], None)"
    using h0 by (simp add: literal_step_channel)
  show ?case
  proof (cases k)
    case 0
    then show ?thesis by (simp add: step m)
  next
    case (Suc k')
    with Cons.prems(1) have k': "k' < length ms" by simp
    have "\<forall>j \<le> k'. is_Channel (ms ! j) \<and> override_ok (lvel (ctl (Suc i + j))) \<and>
             0 \<le> file_time (ms ! j) * ltempo (ctl (Suc i + j))"
    proof (intro allI impI)
      fix j assume "j \<le> k'"
      then have "Suc j \<le> k" using Suc by simp
      from Cons.prems(2) [rule_format, OF this]
      show "is_Channel (ms ! j) \<and> override_ok (lvel (ctl (Suc i + j))) \<and>
             0 \<le> file_time (ms ! j) * ltempo (ctl (Suc i + j))" by simp
    qed
    from Cons.IH [OF k' this] show ?thesis
      by (simp add: step m Suc)
  qed
qed

lemma midi_run_take_cong:
  assumes "k \<le> length msgs"
    and "\<forall>j < k. ctl' (i + j) = ctl (i + j)"
    and "\<forall>j < k. is_Channel (msgs ! j) \<and> override_ok (lvel (ctl (i + j))) \<and>
             0 \<le> file_time (msgs ! j) * ltempo (ctl (i + j))"
  shows "take (2 * k) (fst (midi_run ctl' i msgs)) = take (2 * k) (fst (midi_run ctl i msgs))"
  using assms
proof (induction msgs arbitrary: i k)
  case Nil
  then show ?case by simp
next
  case (Cons m ms)
  show ?case
  proof (cases k)
    case 0
    then show ?thesis by simp
  next
    case (Suc k')
    with Cons.prems(1) have k': "k' \<le> length ms" by simp
    from Cons.prems(3) [rule_format, of 0] Suc
    obtain msg where m: "m = Channel msg" and h0: "override_ok (lvel (ctl i))"
      "0 \<le> time msg * ltempo (ctl i)"
      by (cases m) (simp_all add: file_time_def)
    from Cons.prems(2) [rule_format, of 0] Suc have c0: "ctl' i = ctl i" by simp
    have step: "literal_step (ctl i) (Channel msg) =
        ([Slept (time msg * ltempo (ctl i)), Sent (override_msg (lvel (ctl i)) msg)], None)"
      using h0 by (simp add: literal_step_channel)
    have a: "\<forall>j < k'. ctl' (Suc i + j) = ctl (Suc i + j)"
    proof (intro allI impI)
      fix j assume "j < k'"
      then have "Suc j < k" using Suc by simp
      from Cons.prems(2) [rule_format, OF this] show "ctl' (Suc i + j) = ctl (Suc i + j)" by simp
    qed
    have b: "\<forall>j < k'. is_Channel (ms ! j) \<and> override_ok (lvel (ctl (Suc i + j))) \<and>
             0 \<le> file_time (ms ! j) * ltempo (ctl (Suc i + j))"
    proof (intro allI impI)
      fix j assume "j < k'"
      then have "Suc j < k" using Suc by simp
      from Cons.prems(3) [rule_format, OF this]
      show "is_Channel (ms ! j) \<and> override_ok (lvel (ctl (Suc i + j))) \<and>
             0 \<le> file_time (ms ! j) * ltempo (ctl (Suc i + j))" by simp
    qed
    from Cons.IH [OF k' a b] show ?thesis
      by (simp add: step m c0 Suc)
  qed
qed





text \<open>
  C8 as stated fails: \<^verbatim>\<open>self.vel\<close> and \<^verbatim>\<open>self.tempo\<close> are read inside the loop, at every
  message. Two runs over the same four events start with the same values (override 100,
  tempo 1); in one of them the setters are called with 30 and 2 after the second event, and
  from the third event on it sends another velocity and sleeps other durations.
\<close>

theorem literal_read_once_counterexample:
  "lctl_late 0 = lctl_fixed 0 \<and>
   MidiThread_run lctl_late msgs0 =
     ([Slept 0, Sent \<lparr>mtype = NoteOn, velocity = 100, mnote = 60, time = 0\<rparr>,
       Slept 1, Sent \<lparr>mtype = NoteOn, velocity = 0, mnote = 60, time = 1\<rparr>,
       Slept 1, Sent \<lparr>mtype = NoteOn, velocity = 30, mnote = 62, time = 1/2\<rparr>,
       Slept 2, Sent \<lparr>mtype = NoteOff, velocity = 64, mnote = 62, time = 1\<rparr>], None) \<and>
   MidiThread_run lctl_fixed msgs0 =
     ([Slept 0, Sent \<lparr>mtype = NoteOn, velocity = 100, mnote = 60, time = 0\<rparr>,
       Slept 1, Sent \<lparr>mtype = NoteOn, velocity = 0, mnote = 60, time = 1\<rparr>,
       Slept (1/2), Sent \<lparr>mtype = NoteOn, velocity = 100, mnote = 62, time = 1/2\<rparr>,
       Slept 1, Sent \<lparr>mtype = NoteOff, velocity = 64, mnote = 62, time = 1\<rparr>], None) \<and>
   MidiThread_run lctl_late msgs0 \<noteq> MidiThread_run lctl_fixed msgs0"
  by (simp add: MidiThread_run_def msgs0_def lctl_late_def lctl_fixed_def literal_step_def
      play_msg_def msg_copy_velocity_def data_byte_def time_sleep_def)

text \<open>
  C8, amended: the override and the tempo-stretch are read at every event. As long as the
  run has met channel messages only, with an override that is unset or an integer from 0 to
  127 and no negative sleep, the \<open>k\<close>-th event is slept for with the tempo-stretch, and sent
  with the override, that the attributes hold when that event is processed; and a run
  whose values have been the same up to the \<open>k\<close>-th event has slept and sent the same up to
  that event. A setter call between two events takes effect from the next event on.
\<close>

theorem literal_read_per_event:
  "k < length msgs \<and>
   (\<forall>j \<le> k. is_Channel (msgs ! j) \<and> override_ok (lvel (ctl j)) \<and>
            0 \<le> file_time (msgs ! j) * ltempo (ctl j)) \<longrightarrow>
     fst (MidiThread_run ctl msgs) ! (2 * k) =
       Slept (time (channel_of (msgs ! k)) * ltempo (ctl k)) \<and>
     fst (MidiThread_run ctl msgs) ! (2 * k + 1) =
       Sent (if mtype (channel_of (msgs ! k)) = NoteOn \<and> velocity (channel_of (msgs ! k)) \<noteq> 0
             then (case lvel (ctl k) of
                     Some (PyInt v) \<Rightarrow> (channel_of (msgs ! k))\<lparr>velocity := v\<rparr>
                   | _ \<Rightarrow> channel_of (msgs ! k))
             else channel_of (msgs ! k)) \<and>
     (\<forall>ctl'. (\<forall>j < k. ctl' j = ctl j) \<longrightarrow>
        take (2 * k) (fst (MidiThread_run ctl' msgs)) = take (2 * k) (fst (MidiThread_run ctl msgs)))"
proof (intro impI, elim conjE)
  assume k: "k < length msgs"
    and ok: "\<forall>j \<le> k. is_Channel (msgs ! j) \<and> override_ok (lvel (ctl j)) \<and>
            0 \<le> file_time (msgs ! j) * ltempo (ctl j)"
  from ok have ok0: "\<forall>j \<le> k. is_Channel (msgs ! j) \<and> override_ok (lvel (ctl (0 + j))) \<and>
            0 \<le> file_time (msgs ! j) * ltempo (ctl (0 + j))"
    by simp
  from ok have ok1: "\<forall>j < k. is_Channel (msgs ! j) \<and> override_ok (lvel (ctl (0 + j))) \<and>
            0 \<le> file_time (msgs ! j) * ltempo (ctl (0 + j))"
    by simp
  have kl: "k \<le> length msgs" using k by simp
  have pre: "\<forall>ctl'. (\<forall>j < k. ctl' j = ctl j) \<longrightarrow>
        take (2 * k) (fst (MidiThread_run ctl' msgs)) = take (2 * k) (fst (MidiThread_run ctl msgs))"
  proof (intro allI impI)
    fix ctl' assume "\<forall>j < k. ctl' j = ctl j"
    then have "\<forall>j < k. ctl' (0 + j) = ctl (0 + j)" by simp
    from midi_run_take_cong [OF kl this ok1]
    show "take (2 * k) (fst (MidiThread_run ctl' msgs)) = take (2 * k) (fst (MidiThread_run ctl msgs))"
      by (simp add: MidiThread_run_def)
  qed
  from midi_run_nth_ok [OF k ok0]
  have s: "fst (MidiThread_run ctl msgs) ! (2 * k) =
       Slept (time (channel_of (msgs ! k)) * ltempo (ctl k))"
    and m: "fst (MidiThread_run ctl msgs) ! Suc (2 * k) =
       Sent (override_msg (lvel (ctl k)) (channel_of (msgs ! k)))"
    by (simp_all add: MidiThread_run_def)
  from m have m': "fst (MidiThread_run ctl msgs) ! (2 * k + 1) =
       Sent (if mtype (channel_of (msgs ! k)) = NoteOn \<and> velocity (channel_of (msgs ! k)) \<noteq> 0
             then (case lvel (ctl k) of
                     Some (PyInt v) \<Rightarrow> (channel_of (msgs ! k))\<lparr>velocity := v\<rparr>
                   | _ \<Rightarrow> channel_of (msgs ! k))
             else channel_of (msgs ! k))"
    by (simp only: override_msg_def Suc_eq_plus1)
  from s m' pre
  show "fst (MidiThread_run ctl msgs) ! (2 * k) =
       Slept (time (channel_of (msgs ! k)) * ltempo (ctl k)) \<and>
     fst (MidiThread_run ctl msgs) ! (2 * k + 1) =
       Sent (if mtype (channel_of (msgs ! k)) = NoteOn \<and> velocity (channel_of (msgs ! k)) \<noteq> 0
             then (case lvel (ctl k) of
                     Some (PyInt v) \<Rightarrow> (channel_of (msgs ! k))\<lparr>velocity := v\<rparr>
                   | _ \<Rightarrow> channel_of (msgs ! k))
             else channel_of (msgs ! k)) \<and>
     (\<forall>ctl'. (\<forall>j < k. ctl' j = ctl j) \<longrightarrow>
        take (2 * k) (fst (MidiThread_run ctl' msgs)) = take (2 * k) (fst (MidiThread_run ctl msgs)))"
    by (intro conjI)
qed

lemma msgs0_channels: "\<forall>m\<in>set msgs0. is_Channel m \<and> 0 \<le> file_time m"
  by (simp add: msgs0_def file_time_def)

theorem literal_read_per_event_witness:
  "fst (MidiThread_run lctl_late msgs0) ! 4 = Slept 1 \<and>
   fst (MidiThread_run lctl_late msgs0) ! 5 =
     Sent \<lparr>mtype = NoteOn, velocity = 30, mnote = 62, time = 1/2\<rparr> \<and>
   take 4 (fst (MidiThread_run lctl_fixed msgs0)) = take 4 (fst (MidiThread_run lctl_late msgs0))"
proof -
  have len: "length msgs0 = 4" by (simp add: msgs0_def)
  have hyp: "2 < length msgs0 \<and>
     (\<forall>j \<le> 2. is_Channel (msgs0 ! j) \<and> override_ok (lvel (lctl_late j)) \<and>
            0 \<le> file_time (msgs0 ! j) * ltempo (lctl_late j))"
  proof (intro conjI allI impI)
    show "2 < length msgs0" by (simp add: len)
    fix j :: nat assume "j \<le> 2"
    then have "msgs0 ! j \<in> set msgs0" by (simp add: len)
    with msgs0_channels have c: "is_Channel (msgs0 ! j)" and f: "0 \<le> file_time (msgs0 ! j)"
      by blast+
    from c show "is_Channel (msgs0 ! j)" .
    show "override_ok (lvel (lctl_late j))" by (simp add: lctl_late_def override_ok_def data_byte_def)
    have "0 \<le> ltempo (lctl_late j)" by (simp add: lctl_late_def)
    with f show "0 \<le> file_time (msgs0 ! j) * ltempo (lctl_late j)" by simp
  qed
  note t = literal_read_per_event [of 2 msgs0 lctl_late, THEN mp, OF hyp]
  from t [THEN conjunct1] have "fst (MidiThread_run lctl_late msgs0) ! 4 = Slept 1"
    by (simp add: msgs0_def lctl_late_def)
  moreover from t [THEN conjunct2, THEN conjunct1]
  have "fst (MidiThread_run lctl_late msgs0) ! 5 =
     Sent \<lparr>mtype = NoteOn, velocity = 30, mnote = 62, time = 1/2\<rparr>"
    by (simp add: msgs0_def lctl_late_def)
  moreover have "\<forall>j < 2. lctl_fixed j = lctl_late j" by (simp add: lctl_late_def lctl_fixed_def)
  from t [THEN conjunct2, THEN conjunct2, THEN spec [where x = lctl_fixed], THEN mp, OF this]
  have "take 4 (fst (MidiThread_run lctl_fixed msgs0)) = take 4 (fst (MidiThread_run lctl_late msgs0))"
    by simp
  ultimately show ?thesis by (intro conjI)
qed

section \<open>The order of the notes of a position\<close>

lemma length_ins_rev: "length (ins_rev f x ys) = Suc (length ys)"
  by (induction ys) simp_all

lemma mset_ins_rev: "mset (ins_rev f x ys) = add_mset x (mset ys)"
  by (induction ys) simp_all

lemma set_ins_rev: "set (ins_rev f x ys) = insert x (set ys)"
  by (induction ys) auto

lemma sorted_ins_rev:
  "sorted (rev (map f ys)) \<Longrightarrow> sorted (rev (map f (ins_rev f x ys)))"
proof (induction ys)
  case Nil
  then show ?case by simp
next
  case (Cons y ys)
  then show ?case
    by (auto simp add: sorted_append set_ins_rev)
qed

lemma filter_ins_rev:
  "filter (\<lambda>y. f y = c) (ins_rev f x ys) =
     (if f x = c then x # filter (\<lambda>y. f y = c) ys else filter (\<lambda>y. f y = c) ys)"
  by (induction ys) auto

lemma sort_rev_snoc: "sort_rev f (xs @ [x]) = ins_rev f x (sort_rev f xs)"
  by (simp add: sort_rev_def)

lemma length_sort_rev: "length (sort_rev f xs) = length xs"
  by (induction xs rule: rev_induct) (simp_all add: sort_rev_snoc length_ins_rev sort_rev_def)

lemma mset_sort_rev: "mset (sort_rev f xs) = mset xs"
  by (induction xs rule: rev_induct) (simp_all add: sort_rev_snoc mset_ins_rev sort_rev_def)

lemma sorted_sort_rev: "sorted (rev (map f (sort_rev f xs)))"
proof (induction xs rule: rev_induct)
  case Nil
  then show ?case by (simp add: sort_rev_def)
next
  case (snoc x xs)
  then show ?case by (simp only: sort_rev_snoc sorted_ins_rev)
qed

lemma filter_sort_rev:
  "filter (\<lambda>y. f y = c) (sort_rev f xs) = rev (filter (\<lambda>y. f y = c) xs)"
  by (induction xs rule: rev_induct) (simp_all add: sort_rev_snoc filter_ins_rev sort_rev_def)

lemma sort_rev_sort_key: "rev (sort_rev f xs) = sort_key f xs"
proof (rule properties_for_sort_key [symmetric])
  show "mset (rev (sort_rev f xs)) = mset xs"
    by (simp add: mset_sort_rev)
  show "sorted (map f (rev (sort_rev f xs)))"
    using sorted_sort_rev [of f xs] by (simp add: rev_map)
  show "\<And>k. k \<in> set (rev (sort_rev f xs)) \<Longrightarrow>
     filter (\<lambda>x. f k = f x) (rev (sort_rev f xs)) = filter (\<lambda>x. f k = f x) xs"
  proof -
    fix k
    have "filter (\<lambda>x. f x = f k) (rev (sort_rev f xs)) = filter (\<lambda>x. f x = f k) xs"
      by (simp add: rev_filter [symmetric] filter_sort_rev)
    moreover have "(\<lambda>x. f k = f x) = (\<lambda>x. f x = f k)" by auto
    ultimately show "filter (\<lambda>x. f k = f x) (rev (sort_rev f xs)) = filter (\<lambda>x. f k = f x) xs"
      by simp
  qed
qed

lemma ins_shift_rev:
  "ins_shift v (v ! x) 0 (rev ys @ h # post) (length ys) = (ts', j) \<Longrightarrow>
   ts'[j := x] = rev (ins_rev (\<lambda>i. v ! i) x ys) @ post"
proof (induction ys arbitrary: h post ts' j)
  case Nil
  then show ?case by auto
next
  case (Cons y ys)
  show ?case
  proof (cases "v ! x < v ! y")
    case True
    have upd: "(rev (y # ys) @ h # post)[Suc (length ys) := y] = rev ys @ y # (y # post)"
      by (simp add: list_update_append)
    from True Cons.prems
    have "ins_shift v (v ! x) 0 (rev ys @ y # (y # post)) (length ys) = (ts', j)"
      by (simp add: nth_append list_update_append)
    from Cons.IH [OF this] True show ?thesis by simp
  next
    case False
    with Cons.prems have "ts' = rev (y # ys) @ h # post" and "j = Suc (length ys)"
      by (simp_all add: nth_append)
    with False show ?thesis by (simp add: list_update_append)
  qed
qed

lemma insert_at_rev:
  "insert_at v 0 (rev ys @ x # post) (length ys) = rev (ins_rev (\<lambda>i. v ! i) x ys) @ post"
proof -
  obtain ts' j where r: "ins_shift v (v ! x) 0 (rev ys @ x # post) (length ys) = (ts', j)"
    by (cases "ins_shift v (v ! x) 0 (rev ys @ x # post) (length ys)")
  from ins_shift_rev [OF r] r show ?thesis
    by (simp add: insert_at_def nth_append)
qed

lemma insertion_prefix:
  "Suc k \<le> length xs \<Longrightarrow>
   foldl (insert_at v 0) xs [Suc 0 ..< Suc k] =
     rev (sort_rev (\<lambda>i. v ! i) (take (Suc k) xs)) @ drop (Suc k) xs"
proof (induction k)
  case 0
  then show ?case
    by (cases xs) (simp_all add: sort_rev_def)
next
  case (Suc k)
  then have k: "Suc k < length xs" by simp
  let ?R = "sort_rev (\<lambda>i. v ! i) (take (Suc k) xs)"
  have len: "length ?R = Suc k"
    using k by (simp add: length_sort_rev)
  have "foldl (insert_at v 0) xs [Suc 0 ..< Suc (Suc k)] =
        insert_at v 0 (foldl (insert_at v 0) xs [Suc 0 ..< Suc k]) (Suc k)"
    by simp
  also have "\<dots> = insert_at v 0 (rev ?R @ xs ! Suc k # drop (Suc (Suc k)) xs) (length ?R)"
    using Suc k by (simp add: len Cons_nth_drop_Suc)
  also have "\<dots> = rev (ins_rev (\<lambda>i. v ! i) (xs ! Suc k) ?R) @ drop (Suc (Suc k)) xs"
    by (rule insert_at_rev)
  also have "ins_rev (\<lambda>i. v ! i) (xs ! Suc k) ?R = sort_rev (\<lambda>i. v ! i) (take (Suc (Suc k)) xs)"
    by (simp only: take_Suc_conv_app_nth [OF k] sort_rev_snoc)
  finally show ?case .
qed

lemma insertion_sort_range_sort_key:
  "insertion_sort_range v xs 0 (length xs - 1) = sort_key (\<lambda>i. v ! i) xs"
proof (cases xs)
  case Nil
  then show ?thesis by (simp add: insertion_sort_range_def)
next
  case (Cons a as)
  then have "Suc (length as) \<le> length xs" by simp
  from insertion_prefix [OF this, of v] Cons show ?thesis
    by (simp add: insertion_sort_range_def sort_rev_sort_key)
qed

lemma np_argsort_small:
  "length v \<le> 16 \<Longrightarrow> np_argsort v = sort_key (\<lambda>i. v ! i) [0 ..< length v]"
proof -
  assume "length v \<le> 16"
  then have small: "\<not> 15 < length v - 1 - 0" by simp
  have "np_argsort v = insertion_sort_range v [0 ..< length v] 0 (length v - 1)"
    unfolding np_argsort_def by (subst aquicksort.simps) (simp only: small if_False, simp)
  also have "\<dots> = sort_key (\<lambda>i. v ! i) [0 ..< length v]"
    using insertion_sort_range_sort_key [of v "[0 ..< length v]"] by simp
  finally show ?thesis .
qed

subsection \<open>\<^verbatim>\<open>np.argsort\<close> returns an ascending permutation\<close>

text \<open>The heap sort, the insertion sort and the partition step are verified on a window
  \<open>pre @ w @ post\<close> of the index array; the main loop then follows by induction on the
  length of the window.\<close>

lemma list_update_thrice:
  "a \<noteq> b \<Longrightarrow> xs[a := t, b := t', a := x] = xs[b := t', a := x]"
  by (metis list_update_overwrite list_update_swap)

lemma hole_move_mset:
  assumes "a \<noteq> b" and "a < length xs" and "b < length xs"
  shows "mset (xs[a := xs ! b, b := t]) = mset (xs[a := t])"
proof -
  let ?ys = "xs[a := t]"
  have "?ys[b := ?ys ! a, a := ?ys ! b] = xs[a := t, b := t, a := xs ! b]"
    using assms by simp
  also have "\<dots> = xs[b := t, a := xs ! b]"
    using assms(1) by (rule list_update_thrice)
  also have "\<dots> = xs[a := xs ! b, b := t]"
    using assms(1) by (metis list_update_swap)
  finally have "xs[a := xs ! b, b := t] = ?ys[b := ?ys ! a, a := ?ys ! b]" by simp
  moreover have "mset (?ys[b := ?ys ! a, a := ?ys ! b]) = mset ?ys"
    using assms by (intro mset_swap) simp_all
  ultimately show ?thesis by simp
qed

lemma sift_down_shape:
  "base = 0 \<Longrightarrow> j = i + i \<Longrightarrow> 0 < i \<Longrightarrow> i \<le> n \<Longrightarrow> n \<le> length w \<Longrightarrow>
   sift_down v base n tmp w i j = (w', i') \<Longrightarrow>
   length w' = length w \<and> i \<le> i' \<and> i' \<le> n \<and>
   (\<forall>q. q < i - 1 \<or> n \<le> q \<longrightarrow> w' ! q = w ! q) \<and>
   mset (w'[i' - 1 := tmp]) = mset (w[i - 1 := tmp])"
proof (induction v base n tmp w i j arbitrary: w' i' rule: sift_down.induct)
  case (1 v base n tmp ts i j)
  show ?case
  proof (cases "0 < j \<and> j \<le> n")
    case False
    with "1.prems" show ?thesis
      by (simp add: sift_down.simps)
  next
    case True
    define j1 where "j1 = (if j < n \<and> v ! (ts ! (base + j - 1)) < v ! (ts ! (base + j)) then j + 1 else j)"
    have j1: "j \<le> j1" "j1 \<le> n" "j1 \<le> j + 1"
      using True by (auto simp add: j1_def)
    have unfold: "sift_down v base n tmp ts i j =
        (if v ! tmp < v ! (ts ! (base + j1 - 1))
         then sift_down v base n tmp (ts[base + i - 1 := ts ! (base + j1 - 1)]) j1 (j1 + j1)
         else (ts, i))"
      using True by (subst sift_down.simps) (simp add: j1_def Let_def)
    show ?thesis
    proof (cases "v ! tmp < v ! (ts ! (base + j1 - 1))")
      case False
      with unfold "1.prems"(6) have "w' = ts" "i' = i" by simp_all
      with "1.prems" show ?thesis by simp
    next
      case less: True
      let ?ts1 = "ts[base + i - 1 := ts ! (base + j1 - 1)]"
      from less unfold "1.prems"(6)
      have rec: "sift_down v base n tmp ?ts1 j1 (j1 + j1) = (w', i')"
        by simp
      have pre: "0 < j1" "j1 \<le> n" "n \<le> length ?ts1"
        using j1 True "1.prems" by simp_all
      note ih = "1.IH" [OF True j1_def less "1.prems"(1) refl pre rec]
      have ij: "i < j1" using j1 "1.prems" by simp
      from ih have len: "length w' = length ts" by simp
      from ih ij have bounds: "i \<le> i'" "i' \<le> n" by simp_all
      have unch: "\<forall>q. q < i - 1 \<or> n \<le> q \<longrightarrow> w' ! q = ts ! q"
      proof (intro allI impI)
        fix q assume q: "q < i - 1 \<or> n \<le> q"
        with ij have "q < j1 - 1 \<or> n \<le> q" by auto
        with ih have "w' ! q = ?ts1 ! q" by blast
        also from q "1.prems" have "\<dots> = ts ! q" by auto
        finally show "w' ! q = ts ! q" .
      qed
      have "mset (w'[i' - 1 := tmp]) = mset (?ts1[j1 - 1 := tmp])"
        using ih by simp
      also have "\<dots> = mset (ts[i - 1 := tmp])"
        using ij "1.prems" j1 hole_move_mset [of "i - 1" "j1 - 1" ts tmp] by simp
      finally have ms: "mset (w'[i' - 1 := tmp]) = mset (ts[i - 1 := tmp])" .
      from len bounds unch ms show ?thesis by simp
    qed
  qed
qed

lemma hkey_update:
  "0 < k \<Longrightarrow> 0 < i \<Longrightarrow> i \<le> length ts \<Longrightarrow>
   hkey v (ts[i - Suc 0 := x]) k = (if k = i then v ! x else hkey v ts k)"
  by (auto simp add: hkey_def)

lemma children: "c div 2 = i \<Longrightarrow> c = i + i \<or> c = Suc (i + i)" for c i :: nat
  by presburger

lemma sift_down_heap:
  "base = 0 \<Longrightarrow> j = i + i \<Longrightarrow> 0 < l \<Longrightarrow> l \<le> i \<Longrightarrow> i \<le> n \<Longrightarrow> n \<le> length w \<Longrightarrow>
   hole_ok v w l n tmp i \<Longrightarrow> sift_down v base n tmp w i j = (w', i') \<Longrightarrow>
   heap_from v (w'[i' - 1 := tmp]) l n"
proof (induction v base n tmp w i j arbitrary: w' i' rule: sift_down.induct)
  case (1 v base n tmp ts i j)
  note base = \<open>base = 0\<close> and j = \<open>j = i + i\<close>
  have i0: "0 < i" using "1.prems" by simp
  have ilen: "i \<le> length ts" using "1.prems" by simp
  from "1.prems"(7)
  have a: "\<And>k. k \<le> n \<Longrightarrow> l \<le> k div 2 \<Longrightarrow> k div 2 \<noteq> i \<Longrightarrow> k \<noteq> i \<Longrightarrow>
             hkey v ts k \<le> hkey v ts (k div 2)"
    and b1: "l \<le> i div 2 \<Longrightarrow> v ! tmp \<le> hkey v ts (i div 2)"
    and b2: "\<And>c. l \<le> i div 2 \<Longrightarrow> c \<le> n \<Longrightarrow> c div 2 = i \<Longrightarrow> hkey v ts c \<le> hkey v ts (i div 2)"
    by (simp_all add: hole_ok_def)
  show ?case
  proof (cases "0 < j \<and> j \<le> n")
    case False
    with "1.prems"(8) have res: "w' = ts" "i' = i"
      by (simp_all add: sift_down.simps [of v base n tmp ts i j])
    show ?thesis
      unfolding heap_from_def res
    proof (intro allI impI, elim conjE)
      fix k assume k: "k \<le> n" "l \<le> k div 2"
      then have k0: "0 < k" "0 < k div 2" using \<open>0 < l\<close> by auto
      have nochild: "k div 2 \<noteq> i"
      proof
        assume "k div 2 = i"
        then have "i + i \<le> k" by presburger
        with k False j i0 show False by simp
      qed
      show "hkey v (ts[i - 1 := tmp]) k \<le> hkey v (ts[i - 1 := tmp]) (k div 2)"
      proof (cases "k = i")
        case True
        with k b1 have "v ! tmp \<le> hkey v ts (i div 2)" by simp
        with True k0 i0 ilen nochild show ?thesis by (simp add: hkey_update)
      next
        case False
        with a [OF k nochild] k0 i0 ilen nochild show ?thesis by (simp add: hkey_update)
      qed
    qed
  next
    case True
    define j1 where "j1 = (if j < n \<and> v ! (ts ! (base + j - 1)) < v ! (ts ! (base + j)) then j + 1 else j)"
    have j1: "j \<le> j1" "j1 \<le> n" "j1 \<le> j + 1"
      using True by (auto simp add: j1_def)
    have j1i: "j1 div 2 = i" using j1 j by presburger
    have maxc: "\<And>c. c \<le> n \<Longrightarrow> c div 2 = i \<Longrightarrow> hkey v ts c \<le> hkey v ts j1"
    proof -
      fix c assume c: "c \<le> n" "c div 2 = i"
      from children [OF c(2)] have "c = j \<or> c = Suc j" using j by simp
      then show "hkey v ts c \<le> hkey v ts j1"
      proof
        assume "c = j"
        then show ?thesis using True base by (auto simp add: j1_def hkey_def)
      next
        assume "c = Suc j"
        with c have "j < n" by simp
        with \<open>c = Suc j\<close> show ?thesis using True base by (auto simp add: j1_def hkey_def)
      qed
    qed
    have unfold: "sift_down v base n tmp ts i j =
        (if v ! tmp < v ! (ts ! (base + j1 - 1))
         then sift_down v base n tmp (ts[base + i - 1 := ts ! (base + j1 - 1)]) j1 (j1 + j1)
         else (ts, i))"
      using True by (subst sift_down.simps) (simp add: j1_def Let_def)
    have keyj1: "v ! (ts ! (base + j1 - 1)) = hkey v ts j1"
      using base by (simp add: hkey_def)
    show ?thesis
    proof (cases "v ! tmp < hkey v ts j1")
      case False
      with unfold keyj1 "1.prems"(8) have res: "w' = ts" "i' = i" by simp_all
      show ?thesis
        unfolding heap_from_def res
      proof (intro allI impI, elim conjE)
        fix k assume k: "k \<le> n" "l \<le> k div 2"
        then have k0: "0 < k" "0 < k div 2" using \<open>0 < l\<close> by auto
        show "hkey v (ts[i - 1 := tmp]) k \<le> hkey v (ts[i - 1 := tmp]) (k div 2)"
        proof (cases "k = i")
          case ki: True
          then have "k div 2 \<noteq> i" using i0 by presburger
          moreover from ki k b1 have "v ! tmp \<le> hkey v ts (i div 2)" by simp
          ultimately show ?thesis using ki k0 i0 ilen by (simp add: hkey_update)
        next
          case ki: False
          show ?thesis
          proof (cases "k div 2 = i")
            case True
            from maxc [OF k(1) True] False have "hkey v ts k \<le> v ! tmp" by simp
            with True ki k0 i0 ilen show ?thesis by (simp add: hkey_update)
          next
            case False
            with a [OF k False ki] ki k0 i0 ilen show ?thesis by (simp add: hkey_update)
          qed
        qed
      qed
    next
      case less: True
      define ts1 where "ts1 = ts[base + i - 1 := ts ! (base + j1 - 1)]"
      have ts1: "ts1 = ts[i - Suc 0 := ts ! (j1 - 1)]" using base by (simp add: ts1_def)
      from less unfold keyj1 "1.prems"(8)
      have rec: "sift_down v base n tmp ts1 j1 (j1 + j1) = (w', i')"
        by (simp add: ts1_def)
      have ij: "i < j1" using j1 j i0 by simp
      have hk: "\<And>k. 0 < k \<Longrightarrow> hkey v ts1 k = (if k = i then hkey v ts j1 else hkey v ts k)"
        unfolding ts1 using i0 ilen by (simp add: hkey_update) (simp add: hkey_def)
      have len1: "length ts1 = length ts" by (simp add: ts1_def)
      have hole: "hole_ok v ts1 l n tmp j1"
        unfolding hole_ok_def
      proof (intro conjI allI impI; (elim conjE)?)
        fix k assume k: "k \<le> n" "l \<le> k div 2" "k div 2 \<noteq> j1" "k \<noteq> j1"
        then have k0: "0 < k" "0 < k div 2" using \<open>0 < l\<close> by auto
        show "hkey v ts1 k \<le> hkey v ts1 (k div 2)"
        proof (cases "k = i")
          case ki: True
          then have ne: "k div 2 \<noteq> i" using i0 by presburger
          from b2 [OF _ j1(2) j1i] k ki have "hkey v ts j1 \<le> hkey v ts (i div 2)" by simp
          with ki ne k0 show ?thesis by (simp add: hk)
        next
          case ki: False
          show ?thesis
          proof (cases "k div 2 = i")
            case True
            from maxc [OF k(1) True] ki True k0 show ?thesis by (simp add: hk)
          next
            case False
            from a [OF k(1,2) False ki] ki False k0 show ?thesis by (simp add: hk)
          qed
        qed
      next
        assume "l \<le> j1 div 2"
        have "0 < j1 div 2" using j1i i0 by simp
        then show "v ! tmp \<le> hkey v ts1 (j1 div 2)"
          using less j1i by (simp add: hk)
      next
        fix c assume c: "l \<le> j1 div 2" "c \<le> n" "c div 2 = j1"
        then have c0: "0 < c" "c \<noteq> i" "c \<noteq> j1" using ij by presburger+
        have "j1 \<noteq> i" using ij by simp
        have "l \<le> c div 2" using c j1i "1.prems"(4) ij by simp
        from a [OF c(2) this] c ij c0 have "hkey v ts c \<le> hkey v ts j1" by simp
        then show "hkey v ts1 c \<le> hkey v ts1 (j1 div 2)"
          using c0 j1i i0 by (simp add: hk)
      qed
      have pre: "l \<le> j1" "j1 \<le> n" "n \<le> length ts1"
        using ij "1.prems" j1 len1 by simp_all
      have less': "v ! tmp < v ! (ts ! (base + j1 - 1))" using less keyj1 by simp
      from "1.IH" [OF True j1_def less' base refl \<open>0 < l\<close> pre [unfolded ts1_def]
          hole [unfolded ts1_def] rec [unfolded ts1_def]]
      show ?thesis .
    qed
  qed
qed

lemma sift_from_props:
  assumes "0 < l0" "l0 \<le> l" "l \<le> n" "n \<le> length w" "hole_ok v w l0 n tmp l"
  shows "length (sift_from v 0 n tmp w l) = length w"
    and "\<forall>q. q < l - 1 \<or> n \<le> q \<longrightarrow> sift_from v 0 n tmp w l ! q = w ! q"
    and "mset (sift_from v 0 n tmp w l) = mset (w[l - 1 := tmp])"
    and "heap_from v (sift_from v 0 n tmp w l) l0 n"
proof -
  obtain w' i' where r: "sift_down v 0 n tmp w l (l + l) = (w', i')"
    by (cases "sift_down v 0 n tmp w l (l + l)")
  have l0: "0 < l" using assms by simp
  from sift_down_shape [OF refl refl l0 assms(3,4) r]
  have len: "length w' = length w" and b: "l \<le> i'" "i' \<le> n"
    and un: "\<forall>q. q < l - 1 \<or> n \<le> q \<longrightarrow> w' ! q = w ! q"
    and ms: "mset (w'[i' - 1 := tmp]) = mset (w[l - 1 := tmp])"
    by simp_all
  have res: "sift_from v 0 n tmp w l = w'[i' - 1 := tmp]"
    by (simp add: sift_from_def r)
  show "length (sift_from v 0 n tmp w l) = length w"
    by (simp add: res len)
  show "\<forall>q. q < l - 1 \<or> n \<le> q \<longrightarrow> sift_from v 0 n tmp w l ! q = w ! q"
  proof (intro allI impI)
    fix q assume q: "q < l - 1 \<or> n \<le> q"
    with b l0 have "q \<noteq> i' - 1" by auto
    then have "sift_from v 0 n tmp w l ! q = w' ! q"
      by (simp add: res)
    also from un q have "\<dots> = w ! q" by blast
    finally show "sift_from v 0 n tmp w l ! q = w ! q" .
  qed
  show "mset (sift_from v 0 n tmp w l) = mset (w[l - 1 := tmp])"
    by (simp only: res ms)
  from sift_down_heap [OF refl refl assms(1,2,3,4,5) r]
  show "heap_from v (sift_from v 0 n tmp w l) l0 n"
    by (simp only: res)
qed

lemma heap_from_hole:
  assumes "heap_from v w (Suc l) n" and "0 < l"
  shows "hole_ok v w l n tmp l"
  unfolding hole_ok_def
proof (intro conjI allI impI; (elim conjE)?)
  fix k assume "k \<le> n" "l \<le> k div 2" "k div 2 \<noteq> l" "k \<noteq> l"
  then have "Suc l \<le> k div 2" by simp
  with assms \<open>k \<le> n\<close> show "hkey v w k \<le> hkey v w (k div 2)"
    by (simp add: heap_from_def)
next
  assume "l \<le> l div 2"
  with \<open>0 < l\<close> have False by presburger
  then show "v ! tmp \<le> hkey v w (l div 2)" ..
next
  fix c assume "l \<le> l div 2" "c \<le> n" "c div 2 = l"
  with \<open>0 < l\<close> have False by presburger
  then show "hkey v w c \<le> hkey v w (l div 2)" ..
qed

lemma heap_build_props:
  "l \<le> n \<Longrightarrow> n \<le> length w \<Longrightarrow> heap_from v w (Suc l) n \<Longrightarrow>
   length (heap_build v 0 n w l) = length w \<and>
   (\<forall>q. n \<le> q \<longrightarrow> heap_build v 0 n w l ! q = w ! q) \<and>
   mset (heap_build v 0 n w l) = mset w \<and>
   heap_from v (heap_build v 0 n w l) 1 n"
proof (induction l arbitrary: w)
  case 0
  then show ?case by simp
next
  case (Suc l)
  let ?tmp = "w ! (0 + Suc l - 1)"
  let ?w1 = "sift_from v 0 n ?tmp w (Suc l)"
  have hole: "hole_ok v w (Suc l) n ?tmp (Suc l)"
    using Suc.prems(3) by (intro heap_from_hole) simp_all
  note p = sift_from_props [OF _ _ Suc.prems(1,2) hole]
  have len: "length ?w1 = length w" by (rule p) simp_all
  have un: "\<forall>q. q < Suc l - 1 \<or> n \<le> q \<longrightarrow> ?w1 ! q = w ! q" by (rule p) simp_all
  have "mset ?w1 = mset (w[Suc l - 1 := ?tmp])" by (rule p) simp_all
  then have ms: "mset ?w1 = mset w" by simp
  have hp: "heap_from v ?w1 (Suc l) n" by (rule p) simp_all
  from Suc.prems len have pre: "l \<le> n" "n \<le> length ?w1" by simp_all
  from Suc.IH [OF pre hp] len un ms show ?case by simp
qed

lemma heap_max:
  assumes "heap_from v w 1 n"
  shows "0 < k \<Longrightarrow> k \<le> n \<Longrightarrow> hkey v w k \<le> hkey v w 1"
proof (induction k rule: less_induct)
  case (less k)
  show ?case
  proof (cases "k = 1")
    case True
    then show ?thesis by simp
  next
    case False
    with less.prems have k2: "1 \<le> k div 2" "k div 2 < k" "k div 2 \<le> n" by simp_all
    from assms less.prems k2 have "hkey v w k \<le> hkey v w (k div 2)"
      by (simp add: heap_from_def)
    also from less.IH [OF k2(2) _ k2(3)] k2 have "\<dots> \<le> hkey v w 1" by simp
    finally show ?thesis .
  qed
qed

lemma suffix_ok_one: "suffix_ok v ts (Suc 0) \<Longrightarrow> sorted (map (\<lambda>i. v ! i) ts)"
  by (cases ts) (auto simp add: suffix_ok_def)

lemma heap_extract_props:
  "n \<le> length w \<Longrightarrow> heap_from v w 1 n \<Longrightarrow> suffix_ok v w n \<Longrightarrow>
   mset (heap_extract v 0 w n) = mset w \<and> sorted (map (\<lambda>i. v ! i) (heap_extract v 0 w n))"
proof (induction v "0::nat" w n rule: heap_extract.induct)
  case (1 v ts m)
  let ?n = "Suc (Suc m)"
  let ?tmp = "ts ! (0 + Suc m)"
  let ?ts1 = "ts[0 + Suc m := ts ! 0]"
  define R where "R = sift_from v 0 (Suc m) ?tmp ?ts1 1"
  have len1: "length ?ts1 = length ts" by simp
  have hk: "\<And>k. 0 < k \<Longrightarrow> k \<le> Suc m \<Longrightarrow> hkey v (ts[Suc m := ts ! 0]) k = hkey v ts k"
    by (simp add: hkey_def)
  have hole: "hole_ok v ?ts1 1 (Suc m) ?tmp 1"
    unfolding hole_ok_def
  proof (intro conjI allI impI; (elim conjE)?)
    fix k assume k: "k \<le> Suc m" "1 \<le> k div 2" "k div 2 \<noteq> 1" "k \<noteq> 1"
    then have "0 < k" "0 < k div 2" "k div 2 \<le> Suc m" by simp_all
    with k "1.prems"(2) show "hkey v ?ts1 k \<le> hkey v ?ts1 (k div 2)"
      by (simp add: hk heap_from_def)
  qed simp_all
  have pre: "(0::nat) < 1" "(1::nat) \<le> 1" "1 \<le> Suc m" "Suc m \<le> length ?ts1"
    using "1.prems" by simp_all
  note p = sift_from_props [OF pre hole, folded R_def]
  have lenR: "length R = length ts" using p(1) by simp
  have unR: "\<forall>q. Suc m \<le> q \<longrightarrow> R ! q = ?ts1 ! q" using p(2) by simp
  have "mset R = mset (?ts1[1 - 1 := ?tmp])" by (rule p(3))
  also have "?ts1[1 - 1 := ?tmp] = ts[Suc m := ts ! 0, 0 := ts ! Suc m]" by simp
  also have "mset \<dots> = mset ts"
    using "1.prems"(1) by (intro mset_swap) auto
  finally have msR: "mset R = mset ts" .
  have heapR: "heap_from v R 1 (Suc m)" by (rule p(4))
  have dropR: "drop (Suc m) R = ts ! 0 # drop ?n ts"
  proof (rule nth_equalityI)
    show "length (drop (Suc m) R) = length (ts ! 0 # drop ?n ts)"
      using lenR "1.prems"(1) by simp
  next
    fix q assume "q < length (drop (Suc m) R)"
    then have q: "Suc m + q < length ts" using lenR by simp
    have "drop (Suc m) R ! q = R ! (Suc m + q)" using q lenR by simp
    also have "\<dots> = ?ts1 ! (Suc m + q)" using unR by simp
    also have "\<dots> = (ts ! 0 # drop ?n ts) ! q"
      using q by (cases q) simp_all
    finally show "drop (Suc m) R ! q = (ts ! 0 # drop ?n ts) ! q" .
  qed
  have "mset (take (Suc m) R) + mset (drop (Suc m) R) = mset (take ?n ts) + mset (drop ?n ts)"
    using msR by (metis append_take_drop_id mset_append)
  then have takeR: "add_mset (ts ! 0) (mset (take (Suc m) R)) = mset (take ?n ts)"
    by (simp add: dropR)
  have in_take: "\<And>x. x \<in> set (take (Suc m) R) \<Longrightarrow> x \<in> set (take ?n ts)"
  proof -
    fix x assume "x \<in> set (take (Suc m) R)"
    then have "x \<in># add_mset (ts ! 0) (mset (take (Suc m) R))" by simp
    then show "x \<in> set (take ?n ts)" by (simp only: takeR set_mset_mset)
  qed
  have maxroot: "\<And>x. x \<in> set (take ?n ts) \<Longrightarrow> v ! x \<le> v ! (ts ! 0)"
  proof -
    fix x assume "x \<in> set (take ?n ts)"
    then obtain q where q: "q < ?n" "q < length ts" "x = ts ! q"
      by (auto simp add: in_set_conv_nth)
    from heap_max [OF "1.prems"(2), of "Suc q"] q show "v ! x \<le> v ! (ts ! 0)"
      by (simp add: hkey_def)
  qed
  have root_in: "ts ! 0 \<in> set (take ?n ts)"
    using "1.prems"(1) by (simp add: in_set_conv_nth) (rule exI [of _ 0], simp)
  have suf: "suffix_ok v R (Suc m)"
    unfolding suffix_ok_def dropR
  proof (intro conjI ballI)
    from "1.prems"(3) root_in show "sorted (map (\<lambda>i. v ! i) (ts ! 0 # drop ?n ts))"
      by (simp add: suffix_ok_def)
  next
    fix x y assume x: "x \<in> set (take (Suc m) R)" and y: "y \<in> set (ts ! 0 # drop ?n ts)"
    from in_take [OF x] have x': "x \<in> set (take ?n ts)" .
    from y have "y = ts ! 0 \<or> y \<in> set (drop ?n ts)" by simp
    then show "v ! x \<le> v ! y"
    proof
      assume "y = ts ! 0" with maxroot [OF x'] show ?thesis by simp
    next
      assume "y \<in> set (drop ?n ts)"
      with "1.prems"(3) x' show ?thesis by (simp add: suffix_ok_def)
    qed
  qed
  have "Suc m \<le> length R" using lenR "1.prems"(1) by simp
  from "1.hyps" [OF refl refl this [unfolded R_def] heapR [unfolded R_def] suf [unfolded R_def]]
    msR [unfolded R_def]
  show ?case
    by (simp add: Let_def)
next
  case "2_1"
  then show ?case by (simp add: suffix_ok_def)
next
  case "2_2"
  then show ?case by (simp add: suffix_ok_one)
qed

lemma aheapsort_sorts:
  "mset (aheapsort v w 0 (length w)) = mset w \<and>
   sorted (map (\<lambda>i. v ! i) (aheapsort v w 0 (length w)))"
proof -
  let ?n = "length w"
  have h0: "heap_from v w (Suc (?n div 2)) ?n"
    unfolding heap_from_def
  proof (intro allI impI, elim conjE)
    fix k assume "k \<le> ?n" "Suc (?n div 2) \<le> k div 2"
    then have False by presburger
    then show "hkey v w k \<le> hkey v w (k div 2)" ..
  qed
  from heap_build_props [OF _ _ h0]
  have b: "length (heap_build v 0 ?n w (?n div 2)) = ?n"
    "mset (heap_build v 0 ?n w (?n div 2)) = mset w"
    "heap_from v (heap_build v 0 ?n w (?n div 2)) 1 ?n"
    by simp_all
  have s: "suffix_ok v (heap_build v 0 ?n w (?n div 2)) ?n"
    using b(1) by (simp add: suffix_ok_def)
  from heap_extract_props [OF _ b(3) s] b show ?thesis
    by (simp add: aheapsort_def)
qed

lemma update_window:
  "k < length w \<Longrightarrow> (pre @ w @ post)[length pre + k := x] = pre @ w[k := x] @ post"
  by (simp add: list_update_append)

lemma nth_window: "k < length w \<Longrightarrow> (pre @ w @ post) ! (length pre + k) = w ! k"
  by (simp add: nth_append)

lemma update_window1:
  "0 < k \<Longrightarrow> k \<le> length w \<Longrightarrow>
   (pre @ w @ post)[length pre + k - 1 := x] = pre @ w[k - 1 := x] @ post"
  using update_window [of "k - 1" w pre post x] by simp

lemma nth_window1:
  "0 < k \<Longrightarrow> k \<le> length w \<Longrightarrow> (pre @ w @ post) ! (length pre + k - 1) = w ! (k - 1)"
  using nth_window [of "k - 1" w pre post] by simp

lemma sift_down_unfold:
  "0 < j \<and> j \<le> n \<Longrightarrow>
   sift_down v base n tmp ts i j =
     (if v ! tmp < v ! (ts ! (base + larger_child v base n ts j - 1))
      then sift_down v base n tmp (ts[base + i - 1 := ts ! (base + larger_child v base n ts j - 1)])
             (larger_child v base n ts j) (larger_child v base n ts j + larger_child v base n ts j)
      else (ts, i))"
  by (subst sift_down.simps) (simp add: larger_child_def Let_def)

lemma larger_child_bounds:
  "0 < j \<Longrightarrow> j \<le> n \<Longrightarrow> 0 < larger_child v base n ts j \<and> larger_child v base n ts j \<le> n"
  by (simp add: larger_child_def)

lemma larger_child_window:
  assumes "0 < j" "j \<le> n" "n \<le> length w"
  shows "larger_child v (length pre) n (pre @ w @ post) j = larger_child v 0 n w j"
proof -
  from assms have "j \<le> length w" by simp
  from nth_window1 [OF assms(1) this, of pre post]
  have 1: "(pre @ w @ post) ! (length pre + j - 1) = w ! (0 + j - 1)" by simp
  have 2: "j < n \<Longrightarrow> (pre @ w @ post) ! (length pre + j) = w ! (0 + j)"
    using assms nth_window [of j w pre post] by simp
  show ?thesis
    unfolding larger_child_def 1 using 2 by (cases "j < n") simp_all
qed

lemma sift_down_window:
  "base = 0 \<Longrightarrow> 0 < i \<Longrightarrow> i \<le> n \<Longrightarrow> n \<le> length w \<Longrightarrow>
   sift_down v (length pre) n tmp (pre @ w @ post) i j =
     (pre @ fst (sift_down v base n tmp w i j) @ post, snd (sift_down v base n tmp w i j))"
proof (induction v base n tmp w i j rule: sift_down.induct)
  case (1 v base n tmp ts i j)
  note base = \<open>base = 0\<close>
  show ?case
  proof (cases "0 < j \<and> j \<le> n")
    case False
    then have "sift_down v base n tmp ts i j = (ts, i)"
      by (subst sift_down.simps) (simp only: if_False)
    moreover from False have "sift_down v (length pre) n tmp (pre @ ts @ post) i j = (pre @ ts @ post, i)"
      by (subst sift_down.simps) (simp only: if_False)
    ultimately show ?thesis by simp
  next
    case True
    define j1 where "j1 = larger_child v base n ts j"
    have j1: "0 < j1" "j1 \<le> n"
      using True larger_child_bounds [of j n v base ts] by (simp_all add: j1_def)
    have j1w: "larger_child v (length pre) n (pre @ ts @ post) j = j1"
      using True "1.prems" base by (simp add: j1_def larger_child_window)
    have j1': "j1 = (if j < n \<and> v ! (ts ! (base + j - 1)) < v ! (ts ! (base + j)) then j + 1 else j)"
      by (simp add: j1_def larger_child_def)
    have key: "(pre @ ts @ post) ! (length pre + j1 - 1) = ts ! (base + j1 - 1)"
      using j1 base "1.prems" nth_window1 [of j1 ts pre post] by simp
    have upd: "(pre @ ts @ post)[length pre + i - 1 := ts ! (base + j1 - 1)] =
               pre @ ts[base + i - 1 := ts ! (base + j1 - 1)] @ post"
      using "1.prems" update_window1 [of i ts pre post "ts ! (base + j1 - 1)"] by simp
    note unfold0 = sift_down_unfold [OF True, of v base tmp ts i, folded j1_def]
    note unfoldw = sift_down_unfold [OF True, of v "length pre" tmp "pre @ ts @ post" i,
        unfolded j1w key upd]
    show ?thesis
    proof (cases "v ! tmp < v ! (ts ! (base + j1 - 1))")
      case False
      then show ?thesis by (simp only: unfold0 unfoldw if_False fst_conv snd_conv)
    next
      case less: True
      have pre': "0 < j1" "j1 \<le> n" "n \<le> length (ts[base + i - 1 := ts ! (base + j1 - 1)])"
        using j1 "1.prems" by simp_all
      from "1.IH" [OF True j1' less base pre'] less
      show ?thesis by (simp only: unfold0 unfoldw if_True)
    qed
  qed
qed

lemma sift_from_length:
  "0 < l \<Longrightarrow> l \<le> n \<Longrightarrow> n \<le> length w \<Longrightarrow> length (sift_from v 0 n tmp w l) = length w"
proof -
  assume a: "0 < l" "l \<le> n" "n \<le> length w"
  obtain w' i' where r: "sift_down v 0 n tmp w l (l + l) = (w', i')"
    by (cases "sift_down v 0 n tmp w l (l + l)")
  from sift_down_shape [OF refl refl a r] show ?thesis
    by (simp add: sift_from_def r)
qed

lemma sift_from_window:
  assumes "0 < l" "l \<le> n" "n \<le> length w"
  shows "sift_from v (length pre) n tmp (pre @ w @ post) l = pre @ sift_from v 0 n tmp w l @ post"
proof -
  obtain w' i' where r: "sift_down v 0 n tmp w l (l + l) = (w', i')"
    by (cases "sift_down v 0 n tmp w l (l + l)")
  from sift_down_shape [OF refl refl assms r]
  have "length w' = length w" "l \<le> i'" "i' \<le> n" by simp_all
  with assms have "(pre @ w' @ post)[length pre + i' - 1 := tmp] = pre @ w'[i' - 1 := tmp] @ post"
    by (intro update_window1) simp_all
  with sift_down_window [OF refl assms, of v pre tmp post "l + l"] r show ?thesis
    by (simp add: sift_from_def)
qed

lemma heap_build_length:
  "l \<le> n \<Longrightarrow> n \<le> length w \<Longrightarrow> length (heap_build v 0 n w l) = length w"
  by (induction l arbitrary: w) (simp_all add: sift_from_length)

lemma heap_build_window:
  "l \<le> n \<Longrightarrow> n \<le> length w \<Longrightarrow>
   heap_build v (length pre) n (pre @ w @ post) l = pre @ heap_build v 0 n w l @ post"
proof (induction l arbitrary: w)
  case 0
  then show ?case by simp
next
  case (Suc l)
  have rd: "(pre @ w @ post) ! (length pre + Suc l - 1) = w ! (0 + Suc l - 1)"
    using Suc.prems by (simp add: nth_append)
  have len: "n \<le> length (sift_from v 0 n (w ! (0 + Suc l - 1)) w (Suc l))"
    using Suc.prems by (simp add: sift_from_length)
  from Suc.prems have l: "l \<le> n" by simp
  show ?case
    unfolding heap_build.simps rd
    by (simp only: sift_from_window [OF _ Suc.prems] Suc.IH [OF l len] zero_less_Suc)
qed

lemma heap_extract_window:
  "n \<le> length w \<Longrightarrow>
   heap_extract v (length pre) (pre @ w @ post) n = pre @ heap_extract v 0 w n @ post"
proof (induction n arbitrary: w rule: less_induct)
  case (less n)
  show ?case
  proof (cases n)
    case 0
    then show ?thesis by simp
  next
    case (Suc n1)
    show ?thesis
    proof (cases n1)
      case 0
      with Suc show ?thesis by simp
    next
      case (Suc m)
      with \<open>n = Suc n1\<close> have n: "n = Suc (Suc m)" by simp
      let ?tmp = "w ! (0 + Suc m)"
      let ?w1 = "w[0 + Suc m := w ! 0]"
      have "0 < length w" "Suc m < length w" using less.prems n by auto
      from nth_window [OF this(1), of pre post] nth_window [OF this(2), of pre post]
      have rd: "(pre @ w @ post) ! (length pre + Suc m) = ?tmp" "(pre @ w @ post) ! length pre = w ! 0"
        by simp_all
      have upd: "(pre @ w @ post)[length pre + Suc m := w ! 0] = pre @ ?w1 @ post"
        using less.prems n update_window [of "Suc m" w pre post "w ! 0"] by simp
      have sf: "sift_from v (length pre) (Suc m) ?tmp (pre @ ?w1 @ post) 1 =
                pre @ sift_from v 0 (Suc m) ?tmp ?w1 1 @ post"
        using less.prems n by (intro sift_from_window) simp_all
      have len: "Suc m \<le> length (sift_from v 0 (Suc m) ?tmp ?w1 1)"
        using less.prems n by (simp add: sift_from_length)
      have "Suc m < n" using n by simp
      from less.IH [OF this len] show ?thesis
        unfolding n heap_extract.simps Let_def rd upd sf by simp
    qed
  qed
qed

lemma aheapsort_range:
  "\<exists>w'. aheapsort v (pre @ w @ post) (length pre) (length w) = pre @ w' @ post \<and>
        mset w' = mset w \<and> sorted (map (\<lambda>i. v ! i) w')"
proof -
  have "aheapsort v (pre @ w @ post) (length pre) (length w) =
        pre @ aheapsort v w 0 (length w) @ post"
    unfolding aheapsort_def
    by (simp add: heap_build_window heap_extract_window heap_build_length)
  with aheapsort_sorts [of v w] show ?thesis by blast
qed

lemma ins_shift_length: "ins_shift v vp pl ts k = (ts', j) \<Longrightarrow> length ts' = length ts \<and> j \<le> k"
proof (induction k arbitrary: ts ts' j)
  case 0
  then show ?case by simp
next
  case (Suc k)
  show ?case
  proof (cases "pl < Suc k \<and> vp < v ! (ts ! k)")
    case True
    with Suc.prems have "ins_shift v vp pl (ts[Suc k := ts ! k]) k = (ts', j)" by simp
    from Suc.IH [OF this] show ?thesis by simp
  next
    case False
    with Suc.prems show ?thesis by auto
  qed
qed

lemma insert_at_length: "length (insert_at v pl ts k) = length ts"
proof -
  obtain ts' j where r: "ins_shift v (v ! (ts ! k)) pl ts k = (ts', j)"
    by (cases "ins_shift v (v ! (ts ! k)) pl ts k")
  from ins_shift_length [OF r] show ?thesis
    by (simp add: insert_at_def r)
qed

lemma ins_shift_window:
  "k < length w \<Longrightarrow>
   ins_shift v vp (length pre) (pre @ w @ post) (length pre + k) =
     (pre @ fst (ins_shift v vp 0 w k) @ post, length pre + snd (ins_shift v vp 0 w k))"
proof (induction k arbitrary: w)
  case 0
  then show ?case by (cases "length pre") simp_all
next
  case (Suc k)
  from Suc.prems have k: "k < length w" by simp
  have rd: "(pre @ w @ post) ! (length pre + k) = w ! k"
    using k by (rule nth_window)
  have upd: "(pre @ w @ post)[length pre + Suc k := w ! k] = pre @ w[Suc k := w ! k] @ post"
    using Suc.prems by (rule update_window)
  have len: "k < length (w[Suc k := w ! k])" using k by simp
  show ?case
  proof (cases "vp < v ! (w ! k)")
    case True
    have "ins_shift v vp (length pre) (pre @ w @ post) (length pre + Suc k) =
          ins_shift v vp (length pre) ((pre @ w @ post)[Suc (length pre + k) := (pre @ w @ post) ! (length pre + k)])
            (length pre + k)"
      using True rd by simp
    also have "\<dots> = ins_shift v vp (length pre) (pre @ w[Suc k := w ! k] @ post) (length pre + k)"
      using upd rd by simp
    also note Suc.IH [OF len]
    finally show ?thesis using True by simp
  next
    case False
    then show ?thesis using rd by simp
  qed
qed

lemma insert_at_window:
  assumes "k < length w"
  shows "insert_at v (length pre) (pre @ w @ post) (length pre + k) = pre @ insert_at v 0 w k @ post"
proof -
  obtain w' j where r: "ins_shift v (v ! (w ! k)) 0 w k = (w', j)"
    by (cases "ins_shift v (v ! (w ! k)) 0 w k")
  from ins_shift_length [OF r] assms have j: "j < length w'" by simp
  have rd: "(pre @ w @ post) ! (length pre + k) = w ! k"
    using assms by (rule nth_window)
  have upd: "(pre @ w' @ post)[length pre + j := w ! k] = pre @ w'[j := w ! k] @ post"
    using j by (rule update_window)
  have "insert_at v (length pre) (pre @ w @ post) (length pre + k) =
        (case ins_shift v (v ! (w ! k)) (length pre) (pre @ w @ post) (length pre + k) of
           (ts', p_j) \<Rightarrow> ts'[p_j := w ! k])"
    unfolding insert_at_def Let_def rd ..
  also have "\<dots> = (pre @ w' @ post)[length pre + j := w ! k]"
    by (simp only: ins_shift_window [OF assms] r fst_conv snd_conv prod.case)
  also note upd
  also have "w'[j := w ! k] = insert_at v 0 w k"
    by (simp add: insert_at_def r)
  finally show ?thesis .
qed

lemma foldl_insert_at_window:
  "\<forall>k\<in>set ks. k < length w \<Longrightarrow>
   foldl (insert_at v (length pre)) (pre @ w @ post) (map (\<lambda>k. length pre + k) ks) =
     pre @ foldl (insert_at v 0) w ks @ post"
proof (induction ks arbitrary: w)
  case Nil
  then show ?case by simp
next
  case (Cons k ks)
  then have k: "k < length w" and rest: "\<forall>k'\<in>set ks. k' < length (insert_at v 0 w k)"
    by (simp_all add: insert_at_length)
  from Cons.IH [OF rest] show ?case
    by (simp add: insert_at_window [OF k])
qed

lemma upt_shift: "[Suc pl ..< Suc (pl + m)] = map (\<lambda>k. pl + k) [Suc 0 ..< Suc m]"
  by (induction m) simp_all

lemma insertion_sort_range_window:
  assumes "w \<noteq> []"
  shows "insertion_sort_range v (pre @ w @ post) (length pre) (length pre + length w - 1) =
           pre @ sort_key (\<lambda>i. v ! i) w @ post"
proof -
  obtain m where m: "length w = Suc m" using assms by (cases w) simp_all
  have e: "length pre + length w - 1 = length pre + m" by (simp add: m)
  have "insertion_sort_range v (pre @ w @ post) (length pre) (length pre + length w - 1) =
        foldl (insert_at v (length pre)) (pre @ w @ post) (map (\<lambda>k. length pre + k) [Suc 0 ..< Suc m])"
    unfolding insertion_sort_range_def e upt_shift ..
  also have "\<dots> = pre @ foldl (insert_at v 0) w [Suc 0 ..< Suc m] @ post"
    by (rule foldl_insert_at_window) (auto simp add: m)
  also have "foldl (insert_at v 0) w [Suc 0 ..< Suc m] = insertion_sort_range v w 0 (length w - 1)"
    by (simp add: insertion_sort_range_def m)
  also have "\<dots> = sort_key (\<lambda>i. v ! i) w"
    by (rule insertion_sort_range_sort_key)
  finally show ?thesis .
qed

lemma scan_up_spec:
  "p_i < s \<Longrightarrow> s < length ts \<Longrightarrow> \<not> v ! (ts ! s) < vp \<Longrightarrow>
   p_i < scan_up v ts vp p_i \<and> scan_up v ts vp p_i \<le> s \<and>
   \<not> v ! (ts ! scan_up v ts vp p_i) < vp \<and>
   (\<forall>k. p_i < k \<and> k < scan_up v ts vp p_i \<longrightarrow> v ! (ts ! k) < vp)"
proof (induction v ts vp p_i rule: scan_up.induct)
  case (1 v ts vp p_i)
  show ?case
  proof (cases "Suc p_i < length ts \<and> v ! (ts ! Suc p_i) < vp")
    case True
    then have eq: "scan_up v ts vp p_i = scan_up v ts vp (Suc p_i)"
      by (subst scan_up.simps) simp
    from True "1.prems" have "Suc p_i \<noteq> s" by auto
    with "1.prems" have "Suc p_i < s" by simp
    from "1.IH" [OF True this "1.prems"(2,3)]
    have r: "Suc p_i < scan_up v ts vp (Suc p_i)" "scan_up v ts vp (Suc p_i) \<le> s"
      "\<not> v ! (ts ! scan_up v ts vp (Suc p_i)) < vp"
      and below: "\<And>k. Suc p_i < k \<Longrightarrow> k < scan_up v ts vp (Suc p_i) \<Longrightarrow> v ! (ts ! k) < vp"
      by simp_all
    have "\<forall>k. p_i < k \<and> k < scan_up v ts vp (Suc p_i) \<longrightarrow> v ! (ts ! k) < vp"
    proof (intro allI impI, elim conjE)
      fix k assume k: "p_i < k" "k < scan_up v ts vp (Suc p_i)"
      show "v ! (ts ! k) < vp"
      proof (cases "k = Suc p_i")
        case True
        with \<open>Suc p_i < length ts \<and> v ! (ts ! Suc p_i) < vp\<close> show ?thesis by simp
      next
        case False
        with k have "Suc p_i < k" by simp
        from below [OF this k(2)] show ?thesis .
      qed
    qed
    with r show ?thesis unfolding eq by simp
  next
    case False
    then have eq: "scan_up v ts vp p_i = Suc p_i"
      by (subst scan_up.simps) (simp only: if_False)
    from "1.prems" have "Suc p_i < length ts" by simp
    with False have "\<not> v ! (ts ! Suc p_i) < vp" by simp
    with "1.prems" show ?thesis unfolding eq by auto
  qed
qed

lemma scan_down_spec:
  "s < p_j \<Longrightarrow> \<not> vp < v ! (ts ! s) \<Longrightarrow>
   s \<le> scan_down v ts vp p_j \<and> scan_down v ts vp p_j < p_j \<and>
   \<not> vp < v ! (ts ! scan_down v ts vp p_j) \<and>
   (\<forall>k. scan_down v ts vp p_j < k \<and> k < p_j \<longrightarrow> vp < v ! (ts ! k))"
proof (induction p_j)
  case 0
  then show ?case by simp
next
  case (Suc q)
  show ?case
  proof (cases "0 < q \<and> vp < v ! (ts ! q)")
    case True
    with Suc.prems have "q \<noteq> s" by auto
    with Suc.prems have "s < q" by simp
    from Suc.IH [OF this Suc.prems(2)] True show ?thesis
      by (auto simp add: less_Suc_eq)
  next
    case False
    show ?thesis
    proof (cases "q = 0")
      case True
      with Suc.prems have "s = 0" by simp
      with True Suc.prems False show ?thesis by auto
    next
      case q: False
      with False have "\<not> vp < v ! (ts ! q)" by simp
      with False Suc.prems show ?thesis by auto
    qed
  qed
qed

lemma swap_at_props:
  assumes "i < length ts" "j < length ts"
  shows "length (swap_at i j ts) = length ts"
    and "mset (swap_at i j ts) = mset ts"
    and "swap_at i j ts ! i = ts ! j"
    and "swap_at i j ts ! j = ts ! i"
    and "\<And>q. q \<noteq> i \<Longrightarrow> q \<noteq> j \<Longrightarrow> swap_at i j ts ! q = ts ! q"
proof -
  show "length (swap_at i j ts) = length ts" by (simp add: swap_at_def)
  show "mset (swap_at i j ts) = mset ts"
    unfolding swap_at_def by (rule mset_swap [OF assms(2,1)])
  show "swap_at i j ts ! i = ts ! j"
    using assms by (cases "i = j") (simp_all add: swap_at_def)
  show "swap_at i j ts ! j = ts ! i"
    using assms by (simp add: swap_at_def)
  show "\<And>q. q \<noteq> i \<Longrightarrow> q \<noteq> j \<Longrightarrow> swap_at i j ts ! q = ts ! q"
    by (simp add: swap_at_def)
qed

lemma part_loop_spec:
  "part_inv v ts vp pl pr p_i p_j \<Longrightarrow> part_loop v ts vp p_i p_j = (ts', r) \<Longrightarrow>
   part_post v ts vp pl pr p_i p_j ts' r"
proof (induction v ts vp p_i p_j arbitrary: ts' r rule: part_loop.induct)
  case (1 v ts vp p_i p_j)
  let ?i = "scan_up v ts vp p_i" and ?j = "scan_down v ts vp p_j"
  from "1.prems"(1)
  have b: "pl \<le> p_i" "p_i < p_j" "p_j \<le> pr" "pr < length ts"
    and lo: "\<And>k. pl \<le> k \<Longrightarrow> k \<le> p_i \<Longrightarrow> v ! (ts ! k) \<le> vp"
    and hi: "\<And>k. p_j \<le> k \<Longrightarrow> k \<le> pr \<Longrightarrow> vp \<le> v ! (ts ! k)"
    by (simp_all add: part_inv_def)
  have sj: "\<not> v ! (ts ! p_j) < vp" using hi [of p_j] b by simp
  have si: "\<not> vp < v ! (ts ! p_i)" using lo [of p_i] b by simp
  from scan_up_spec [OF b(2) _ sj] b
  have i: "p_i < ?i" "?i \<le> p_j" "vp \<le> v ! (ts ! ?i)"
    and ibelow: "\<And>k. p_i < k \<Longrightarrow> k < ?i \<Longrightarrow> v ! (ts ! k) < vp"
    by (simp_all add: not_less)
  from scan_down_spec [OF b(2) si]
  have j: "p_i \<le> ?j" "?j < p_j" "v ! (ts ! ?j) \<le> vp"
    and jabove: "\<And>k. ?j < k \<Longrightarrow> k < p_j \<Longrightarrow> vp < v ! (ts ! k)"
    by (simp_all add: not_less)
  show ?case
  proof (cases "?i < ?j")
    case False
    with "1.prems"(2) have res: "ts' = ts" "r = ?i"
      by (auto simp add: part_loop.simps [of v ts vp p_i p_j])
    show ?thesis
      unfolding part_post_def res
    proof (intro conjI allI impI)
      fix k assume "pl \<le> k \<and> k < ?i"
      then show "v ! (ts ! k) \<le> vp"
        using lo [of k] ibelow [of k] by (cases "k \<le> p_i") auto
    next
      fix k assume k: "?i < k \<and> k \<le> pr"
      with False have "?j < k" by simp
      with k show "vp \<le> v ! (ts ! k)"
        using hi [of k] jabove [of k] by (cases "k < p_j") auto
    qed (use i in simp_all)
  next
    case True
    let ?ts1 = "swap_at ?i ?j ts"
    from True "1.prems"(2) have rec: "part_loop v ?ts1 vp ?i ?j = (ts', r)"
      by (simp add: part_loop.simps [of v ts vp p_i p_j])
    have il: "?i < length ts" "?j < length ts" using i j b by simp_all
    note sw = swap_at_props [OF il]
    have inv1: "part_inv v ?ts1 vp pl pr ?i ?j"
      unfolding part_inv_def
    proof (intro conjI allI impI)
      show "pl \<le> ?i" using b i by simp
      show "?i < ?j" by (rule True)
      show "?j \<le> pr" using j b by simp
      show "pr < length ?ts1" using b sw(1) by simp
    next
      fix k assume k: "pl \<le> k \<and> k \<le> ?i"
      show "v ! (?ts1 ! k) \<le> vp"
      proof (cases "k = ?i")
        case True
        then show ?thesis using sw(3) j by simp
      next
        case False
        with k True have ne: "k \<noteq> ?i" "k \<noteq> ?j" by simp_all
        from k False have "k < ?i" by simp
        then have "v ! (ts ! k) \<le> vp"
          using lo [of k] ibelow [of k] k by (cases "k \<le> p_i") auto
        with sw(5) [OF ne] show ?thesis by simp
      qed
    next
      fix k assume k: "?j \<le> k \<and> k \<le> pr"
      show "vp \<le> v ! (?ts1 ! k)"
      proof (cases "k = ?j")
        case True
        then show ?thesis using sw(4) i by simp
      next
        case False
        with k True have ne: "k \<noteq> ?i" "k \<noteq> ?j" by simp_all
        from k False have "?j < k" by simp
        then have "vp \<le> v ! (ts ! k)"
          using hi [of k] jabove [of k] k by (cases "k < p_j") auto
        with sw(5) [OF ne] show ?thesis by simp
      qed
    qed
    from "1.IH" [OF True inv1 rec]
    have post: "part_post v ?ts1 vp pl pr ?i ?j ts' r" .
    show ?thesis
      unfolding part_post_def
    proof (intro conjI allI impI)
      show "length ts' = length ts" using post sw(1) by (simp add: part_post_def)
      show "mset ts' = mset ts" using post sw(2) by (simp add: part_post_def)
      show "p_i < r" using post i by (simp add: part_post_def)
      show "r \<le> p_j" using post j by (simp add: part_post_def)
      show "vp \<le> v ! (ts' ! r)" using post by (simp add: part_post_def)
    next
      fix q assume q: "q \<le> p_i \<or> p_j \<le> q"
      with i j have "q \<le> ?i \<or> ?j \<le> q" by auto
      with post have "ts' ! q = ?ts1 ! q" unfolding part_post_def by blast
      moreover from q i j True have "q \<noteq> ?i" "q \<noteq> ?j" by auto
      ultimately show "ts' ! q = ts ! q" using sw(5) by simp
    next
      fix k assume "pl \<le> k \<and> k < r"
      with post show "v ! (ts' ! k) \<le> vp" by (simp add: part_post_def)
    next
      fix k assume "r < k \<and> k \<le> pr"
      with post show "vp \<le> v ! (ts' ! k)" by (simp add: part_post_def)
    qed
  qed
qed

lemma median3_spec:
  assumes "pl < pm" "pm < pr" "pr < length ts"
  shows "length (median3 v ts pl pm pr) = length ts"
    and "mset (median3 v ts pl pm pr) = mset ts"
    and "\<And>q. q \<noteq> pl \<Longrightarrow> q \<noteq> pm \<Longrightarrow> q \<noteq> pr \<Longrightarrow> median3 v ts pl pm pr ! q = ts ! q"
    and "v ! (median3 v ts pl pm pr ! pl) \<le> v ! (median3 v ts pl pm pr ! pm)"
    and "v ! (median3 v ts pl pm pr ! pm) \<le> v ! (median3 v ts pl pm pr ! pr)"
proof -
  define ts1 where "ts1 = (if v ! (ts ! pm) < v ! (ts ! pl) then swap_at pm pl ts else ts)"
  define ts2 where "ts2 = (if v ! (ts1 ! pr) < v ! (ts1 ! pm) then swap_at pr pm ts1 else ts1)"
  define ts3 where "ts3 = (if v ! (ts2 ! pm) < v ! (ts2 ! pl) then swap_at pm pl ts2 else ts2)"
  have m: "median3 v ts pl pm pr = ts3"
    by (simp add: median3_def ts1_def ts2_def ts3_def Let_def)
  have b: "pl < length ts" "pm < length ts" "pl \<noteq> pm" "pm \<noteq> pr" "pl \<noteq> pr"
    using assms by simp_all
  note s1 = swap_at_props [OF b(2) b(1)]
  have l1: "length ts1 = length ts" and m1: "mset ts1 = mset ts"
    and u1: "\<And>q. q \<noteq> pl \<Longrightarrow> q \<noteq> pm \<Longrightarrow> ts1 ! q = ts ! q"
    and k1: "v ! (ts1 ! pl) \<le> v ! (ts1 ! pm)"
    using s1 by (auto simp add: ts1_def)
  have b1: "pr < length ts1" "pm < length ts1" "pl < length ts1" using l1 assms b by simp_all
  note s2 = swap_at_props [OF b1(1) b1(2)]
  have l2: "length ts2 = length ts" and m2: "mset ts2 = mset ts"
    and u2: "\<And>q. q \<noteq> pm \<Longrightarrow> q \<noteq> pr \<Longrightarrow> ts2 ! q = ts1 ! q"
    and k2: "v ! (ts2 ! pm) \<le> v ! (ts2 ! pr)"
    using s2 l1 m1 by (auto simp add: ts2_def)
  have k2': "v ! (ts2 ! pl) \<le> v ! (ts2 ! pr)"
  proof -
    have "ts2 ! pl = ts1 ! pl" using u2 [of pl] b by simp
    moreover have "v ! (ts1 ! pm) \<le> v ! (ts2 ! pr)"
      using s2(3) by (auto simp add: ts2_def)
    ultimately show ?thesis using k1 by simp
  qed
  have b2: "pm < length ts2" "pl < length ts2" using l2 b by simp_all
  note s3 = swap_at_props [OF b2(1) b2(2)]
  have l3: "length ts3 = length ts" and m3: "mset ts3 = mset ts"
    and u3: "\<And>q. q \<noteq> pl \<Longrightarrow> q \<noteq> pm \<Longrightarrow> ts3 ! q = ts2 ! q"
    and k3: "v ! (ts3 ! pl) \<le> v ! (ts3 ! pm)"
    using s3 l2 m2 by (auto simp add: ts3_def)
  have pr3: "ts3 ! pr = ts2 ! pr" using u3 [of pr] b by simp
  have k3': "v ! (ts3 ! pm) \<le> v ! (ts3 ! pr)"
    unfolding pr3 using k2 k2' s3(3,4) by (auto simp add: ts3_def)
  show "length (median3 v ts pl pm pr) = length ts" by (simp add: m l3)
  show "mset (median3 v ts pl pm pr) = mset ts" by (simp add: m m3)
  show "\<And>q. q \<noteq> pl \<Longrightarrow> q \<noteq> pm \<Longrightarrow> q \<noteq> pr \<Longrightarrow> median3 v ts pl pm pr ! q = ts ! q"
    by (simp add: m u3 u2 u1)
  show "v ! (median3 v ts pl pm pr ! pl) \<le> v ! (median3 v ts pl pm pr ! pm)"
    by (simp add: m k3)
  show "v ! (median3 v ts pl pm pr ! pm) \<le> v ! (median3 v ts pl pm pr ! pr)"
    by (simp add: m k3')
qed

lemma partition_step_spec:
  assumes "15 < pr - pl" "pr < length ts" "partition_step v ts pl pr = (ts', r)"
  shows "length ts' = length ts \<and> mset ts' = mset ts \<and>
         (\<forall>q. q < pl \<or> pr < q \<longrightarrow> ts' ! q = ts ! q) \<and>
         pl < r \<and> r < pr \<and>
         (\<forall>k. pl \<le> k \<and> k < r \<longrightarrow> v ! (ts' ! k) \<le> v ! (ts' ! r)) \<and>
         (\<forall>k. r < k \<and> k \<le> pr \<longrightarrow> v ! (ts' ! r) \<le> v ! (ts' ! k))"
proof -
  define pm where "pm = pl + (pr - pl) div 2"
  define ts3 where "ts3 = median3 v ts pl pm pr"
  define vp where "vp = v ! (ts3 ! pm)"
  define ts4 where "ts4 = swap_at pm (pr - 1) ts3"
  obtain ts5 p_i where pl5: "part_loop v ts4 vp pl (pr - 1) = (ts5, p_i)"
    by (cases "part_loop v ts4 vp pl (pr - 1)")
  from assms(3) pl5 have res: "ts' = swap_at p_i (pr - 1) ts5" "r = p_i"
    unfolding partition_step_def Let_def ts4_def vp_def ts3_def pm_def
    by (auto split: prod.splits)
  have pm: "pl < pm" "pm < pr - 1" "pm < pr" using assms(1) by (simp_all add: pm_def)
  note m = median3_spec [OF pm(1) pm(3) assms(2), where v = v, folded ts3_def]
  have b3: "pm < length ts3" "pr - 1 < length ts3" using m(1) pm assms(2) by simp_all
  note s4 = swap_at_props [OF b3, folded ts4_def]
  have k4: "v ! (ts4 ! (pr - 1)) = vp" using s4(4) by (simp add: vp_def)
  have k4l: "v ! (ts4 ! pl) \<le> vp"
    using s4(5) [of pl] pm m(4) by (simp add: vp_def)
  have k4r: "vp \<le> v ! (ts4 ! pr)"
    using s4(5) [of pr] pm m(5) by (simp add: vp_def)
  have inv: "part_inv v ts4 vp pl (pr) pl (pr - 1)"
    unfolding part_inv_def
  proof (intro conjI allI impI)
    show "pl < pr - 1" using pm by simp
    show "pr < length ts4" using s4(1) m(1) assms(2) by simp
  next
    fix k assume "pl \<le> k \<and> k \<le> pl"
    then have "k = pl" by simp
    with k4l show "v ! (ts4 ! k) \<le> vp" by simp
  next
    fix k assume "pr - 1 \<le> k \<and> k \<le> pr"
    then have "k = pr - 1 \<or> k = pr" by auto
    with k4 k4r show "vp \<le> v ! (ts4 ! k)" by auto
  qed simp_all
  from part_loop_spec [OF inv pl5]
  have p5: "length ts5 = length ts4" "mset ts5 = mset ts4"
    "\<And>q. q \<le> pl \<or> pr - 1 \<le> q \<Longrightarrow> ts5 ! q = ts4 ! q"
    "pl < p_i" "p_i \<le> pr - 1"
    "\<And>k. pl \<le> k \<Longrightarrow> k < p_i \<Longrightarrow> v ! (ts5 ! k) \<le> vp"
    "\<And>k. p_i < k \<Longrightarrow> k \<le> pr \<Longrightarrow> vp \<le> v ! (ts5 ! k)"
    "vp \<le> v ! (ts5 ! p_i)"
    unfolding part_post_def by blast+
  have len: "length ts5 = length ts" using p5(1) s4(1) m(1) by simp
  have b5: "p_i < length ts5" "pr - 1 < length ts5" using len p5 assms(2) by simp_all
  note s6 = swap_at_props [OF b5]
  have piv5: "v ! (ts5 ! (pr - 1)) = vp" using p5(3) [of "pr - 1"] k4 by simp
  have kr: "v ! (ts' ! r) = vp" unfolding res using s6(3) piv5 by simp
  show ?thesis
  proof (intro conjI allI impI)
    show "length ts' = length ts" unfolding res using s6(1) len by simp
    show "mset ts' = mset ts" unfolding res using s6(2) p5(2) s4(2) m(2) by simp
    show "pl < r" "r < pr" unfolding res using p5(4,5) pm by simp_all
  next
    fix q assume q: "q < pl \<or> pr < q"
    then have ne: "q \<noteq> p_i" "q \<noteq> pr - 1" "q \<noteq> pm" "q \<noteq> pl" "q \<noteq> pr"
      using p5(4,5) pm by auto
    have "ts' ! q = ts5 ! q" unfolding res using s6(5) ne by simp
    also have "\<dots> = ts4 ! q"
    proof (rule p5(3))
      show "q \<le> pl \<or> pr - 1 \<le> q" using q by arith
    qed
    also have "\<dots> = ts3 ! q" using s4(5) ne by simp
    also have "\<dots> = ts ! q" using m(3) ne by simp
    finally show "ts' ! q = ts ! q" .
  next
    fix k assume k: "pl \<le> k \<and> k < r"
    then have ne: "k \<noteq> p_i" "k \<noteq> pr - 1" using res p5(5) by simp_all
    have "ts' ! k = ts5 ! k" unfolding res using s6(5) ne by simp
    with p5(6) [of k] k res kr show "v ! (ts' ! k) \<le> v ! (ts' ! r)" by simp
  next
    fix k assume k: "r < k \<and> k \<le> pr"
    show "v ! (ts' ! r) \<le> v ! (ts' ! k)"
    proof (cases "k = pr - 1")
      case True
      then have "ts' ! k = ts5 ! p_i" unfolding res using s6(4) by simp
      with p5(8) kr show ?thesis by simp
    next
      case False
      with k res have ne: "k \<noteq> p_i" "k \<noteq> pr - 1" by simp_all
      have "ts' ! k = ts5 ! k" unfolding res using s6(5) ne by simp
      with p5(7) [of k] k res kr show ?thesis by simp
    qed
  qed
qed

lemma window_decomp:
  assumes len: "length ts' = length pre + length w + length post"
    and ms: "mset ts' = mset pre + mset w + mset post"
    and lo: "\<And>q. q < length pre \<Longrightarrow> ts' ! q = pre ! q"
    and hi: "\<And>k. k < length post \<Longrightarrow> ts' ! (length pre + length w + k) = post ! k"
  shows "\<exists>w'. ts' = pre @ w' @ post \<and> length w' = length w \<and> mset w' = mset w"
proof -
  define w' where "w' = take (length w) (drop (length pre) ts')"
  have a: "take (length pre) ts' = pre"
    by (rule nth_equalityI) (simp_all add: len lo)
  have b: "drop (length pre + length w) ts' = post"
    by (rule nth_equalityI) (simp_all add: len hi)
  have "ts' = take (length pre) ts' @ drop (length pre) ts'" by simp
  also have "drop (length pre) ts' = w' @ drop (length w) (drop (length pre) ts')"
    unfolding w'_def by (rule append_take_drop_id [symmetric])
  also have "drop (length w) (drop (length pre) ts') = post"
    using b by (simp add: add.commute)
  finally have eq: "ts' = pre @ w' @ post" using a by simp
  have lw: "length w' = length w" by (simp add: w'_def len)
  have "mset pre + mset w' + mset post = mset pre + mset w + mset post"
    using ms eq by (metis mset_append append_assoc)
  then have "mset w' = mset w" by simp
  with eq lw show ?thesis by blast
qed

lemma partition_window:
  assumes big: "16 < length w"
    and ps: "partition_step v (pre @ w @ post) (length pre) (length pre + length w - 1) = (ts', r)"
  shows "\<exists>L p R. ts' = pre @ L @ p # R @ post \<and> r = length pre + length L \<and>
           L \<noteq> [] \<and> R \<noteq> [] \<and> mset (L @ p # R) = mset w \<and>
           (\<forall>x\<in>set L. v ! x \<le> v ! p) \<and> (\<forall>x\<in>set R. v ! p \<le> v ! x)"
proof -
  define pl where "pl = length pre"
  define pr where "pr = length pre + length w - 1"
  define ts where "ts = pre @ w @ post"
  have g: "15 < pr - pl" using big by (simp add: pr_def pl_def)
  have b: "pr < length ts" using big by (simp add: pr_def ts_def)
  have ps': "partition_step v ts pl pr = (ts', r)" using ps by (simp add: ts_def pl_def pr_def)
  from partition_step_spec [OF g b ps']
  have f: "length ts' = length ts" "mset ts' = mset ts"
    "\<And>q. q < pl \<or> pr < q \<Longrightarrow> ts' ! q = ts ! q"
    "pl < r" "r < pr"
    "\<And>k. pl \<le> k \<Longrightarrow> k < r \<Longrightarrow> v ! (ts' ! k) \<le> v ! (ts' ! r)"
    "\<And>k. r < k \<Longrightarrow> k \<le> pr \<Longrightarrow> v ! (ts' ! r) \<le> v ! (ts' ! k)"
    by blast+
  have d1: "length ts' = length pre + length w + length post" using f(1) by (simp add: ts_def)
  have d2: "mset ts' = mset pre + mset w + mset post" using f(2) by (simp add: ts_def)
  have d3: "\<And>q. q < length pre \<Longrightarrow> ts' ! q = pre ! q"
  proof -
    fix q assume q: "q < length pre"
    then have "ts' ! q = ts ! q" using f(3) [of q] by (simp add: pl_def)
    also have "\<dots> = pre ! q" using q by (simp add: ts_def nth_append)
    finally show "ts' ! q = pre ! q" .
  qed
  have d4: "\<And>k. k < length post \<Longrightarrow> ts' ! (length pre + length w + k) = post ! k"
  proof -
    fix k assume k: "k < length post"
    have "pr < length pre + length w + k" using big by (simp add: pr_def)
    then have "ts' ! (length pre + length w + k) = ts ! (length pre + length w + k)"
      using f(3) [of "length pre + length w + k"] by blast
    also have "\<dots> = ((pre @ w) @ post) ! (length (pre @ w) + k)" by (simp add: ts_def)
    also have "\<dots> = post ! k" by (rule nth_append_length_plus)
    finally show "ts' ! (length pre + length w + k) = post ! k" .
  qed
  from window_decomp [OF d1 d2 d3 d4]
  obtain w' where w': "ts' = pre @ w' @ post" "length w' = length w" "mset w' = mset w"
    by blast
  define m where "m = r - pl"
  have m: "0 < m" "Suc m < length w'" "r = pl + m"
    using f(4,5) w'(2) big by (simp_all add: m_def pr_def pl_def)
  have nth_w': "\<And>k. k < length w' \<Longrightarrow> w' ! k = ts' ! (pl + k)"
    by (simp add: w'(1) pl_def nth_append)
  define L where "L = take m w'"
  define p where "p = w' ! m"
  define R where "R = drop (Suc m) w'"
  have split: "w' = L @ p # R"
    unfolding L_def p_def R_def using m(2) by (simp add: id_take_nth_drop [symmetric])
  have lL: "length L = m" using m(2) by (simp add: L_def)
  have pr': "p = ts' ! r" using nth_w' [of m] m by (simp add: p_def)
  have bL: "\<forall>x\<in>set L. v ! x \<le> v ! p"
  proof
    fix x assume "x \<in> set L"
    then obtain k where k: "k < m" "x = L ! k" using lL by (metis in_set_conv_nth)
    then have "x = w' ! k" by (simp add: L_def)
    then have "x = ts' ! (pl + k)" using nth_w' [of k] k m by simp
    with f(6) [of "pl + k"] k m pr' show "v ! x \<le> v ! p" by simp
  qed
  have bR: "\<forall>x\<in>set R. v ! p \<le> v ! x"
  proof
    fix x assume "x \<in> set R"
    then obtain k where k: "k < length R" "x = R ! k" by (metis in_set_conv_nth)
    have kl: "Suc m + k < length w'" using k(1) by (simp add: R_def)
    have "x = w' ! (Suc m + k)" using k kl by (simp add: R_def)
    then have x: "x = ts' ! (pl + (Suc m + k))" using nth_w' [OF kl] by simp
    have "r < pl + (Suc m + k)" using m by simp
    moreover have "pl + (Suc m + k) \<le> pr" using kl w'(2) by (simp add: pr_def pl_def)
    ultimately show "v ! p \<le> v ! x" using f(7) [of "pl + (Suc m + k)"] x pr' by simp
  qed
  have "ts' = pre @ L @ p # R @ post" using w'(1) split by simp
  moreover have "r = length pre + length L" using m lL by (simp add: pl_def)
  moreover have "L \<noteq> []" using lL m by auto
  moreover have "R \<noteq> []" using m(2) by (simp add: R_def)
  moreover have "mset (L @ p # R) = mset w" using w'(3) split by simp
  ultimately show ?thesis using bL bR by blast
qed

lemma aquicksort_window:
  "w \<noteq> [] \<Longrightarrow>
   \<exists>w'. aquicksort v (pre @ w @ post) (length pre) (length pre + length w - 1) cd popped =
           pre @ w' @ post \<and> mset w' = mset w \<and> sorted (map (\<lambda>i. v ! i) w')"
proof (induction "length w" arbitrary: w pre post cd popped rule: less_induct)
  case less
  define pl where "pl = length pre"
  define pr where "pr = length pre + length w - 1"
  define ts where "ts = pre @ w @ post"
  have n: "pr - pl + 1 = length w" "pr - pl = length w - 1"
    using less.prems by (simp_all add: pr_def pl_def)
  have n2: "Suc (length w - Suc 0) = length w" using less.prems by (cases w) simp_all
  show ?case
  proof (cases "popped \<and> cd < 0")
    case True
    then have "aquicksort v ts pl pr cd popped = aheapsort v ts pl (length w)"
      using n2 by (subst aquicksort.simps) (simp add: n)
    with aheapsort_range [of v pre w post] show ?thesis
      by (simp add: ts_def pl_def pr_def)
  next
    case nh: False
    show ?thesis
    proof (cases "15 < pr - pl")
      case False
      with nh have "aquicksort v ts pl pr cd popped = insertion_sort_range v ts pl pr"
        by (subst aquicksort.simps) auto
      also have "\<dots> = pre @ sort_key (\<lambda>i. v ! i) w @ post"
        unfolding ts_def pl_def pr_def by (rule insertion_sort_range_window [OF less.prems])
      finally have "aquicksort v (pre @ w @ post) (length pre) (length pre + length w - 1) cd popped =
          pre @ sort_key (\<lambda>i. v ! i) w @ post"
        by (simp only: ts_def pl_def pr_def)
      then show ?thesis by (intro exI [of _ "sort_key (\<lambda>i. v ! i) w"]) simp
    next
      case big: True
      then have big': "16 < length w" using n by simp
      obtain ts1 r where ps: "partition_step v ts pl pr = (ts1, r)"
        by (cases "partition_step v ts pl pr")
      from partition_window [OF big' ps [unfolded ts_def pl_def pr_def]]
      obtain L p R where d: "ts1 = pre @ L @ p # R @ post" "r = length pre + length L"
        "L \<noteq> []" "R \<noteq> []" "mset (L @ p # R) = mset w"
        "\<forall>x\<in>set L. v ! x \<le> v ! p" "\<forall>x\<in>set R. v ! p \<le> v ! x"
        by blast
      have lw: "length w = length L + Suc (length R)"
        using d(5) by (metis mset_eq_length length_append length_Cons)
      have lL: "length L < length w" and lR: "length R < length w" using lw by simp_all
      have rb: "pl < r" "r < pr" "r - 1 = length pre + length L - 1" "r + 1 = length pre + length L + 1"
        using d(2,3,4) lw by (simp_all add: pl_def pr_def)
      have prR: "pr = length (pre @ L @ [p]) + length R - 1"
        using lw d(4) by (simp add: pr_def)
      let ?key = "\<lambda>i. v ! i"
      have combine: "\<exists>w'. pre @ L' @ p # R' @ post = pre @ w' @ post \<and> mset w' = mset w \<and>
            sorted (map ?key w')"
        if "mset L' = mset L" "sorted (map ?key L')" "mset R' = mset R" "sorted (map ?key R')"
        for L' R'
      proof (intro exI [of _ "L' @ p # R'"] conjI)
        show "pre @ L' @ p # R' @ post = pre @ (L' @ p # R') @ post" by simp
        show "mset (L' @ p # R') = mset w" using that d(5) by simp
        have sL: "set L' = set L" and sR: "set R' = set R"
          using that by (metis mset_eq_setD)+
        have "\<forall>x\<in>set L'. \<forall>y\<in>set (p # R'). v ! x \<le> v ! y"
        proof (intro ballI)
          fix x y assume x: "x \<in> set L'" and y: "y \<in> set (p # R')"
          have "v ! x \<le> v ! p" using x sL d(6) by blast
          moreover have "v ! p \<le> v ! y" using y sR d(7) by auto
          ultimately show "v ! x \<le> v ! y" by simp
        qed
        moreover have "sorted (map ?key (p # R'))" using that(4) sR d(7) by simp
        ultimately show "sorted (map ?key (L' @ p # R'))"
          using that(2) by (simp add: sorted_append)
      qed
      show ?thesis
      proof (cases "r - pl < pr - r")
        case True
        with nh big ps rb(1,2) have unf: "aquicksort v ts pl pr cd popped =
            aquicksort v (aquicksort v ts1 pl (r - 1) (cd - 1) False) (r + 1) pr (cd - 1) True"
          by (subst aquicksort.simps) auto
        from less.hyps [OF lL d(3), where pre = pre and post = "p # R @ post" and cd = "cd - 1" and popped = False]
        obtain L' where l: "aquicksort v ts1 pl (r - 1) (cd - 1) False = pre @ L' @ p # R @ post"
          "mset L' = mset L" "sorted (map ?key L')"
          unfolding d(1) pl_def rb(3) by blast
        have lL': "length L' = length L" using l(2) by (rule mset_eq_length)
        have r1: "r + 1 = length (pre @ L' @ [p])" using d(2) lL' by simp
        have prR': "pr = length (pre @ L' @ [p]) + length R - 1" using prR lL' by simp
        from less.hyps [OF lR d(4), where pre = "pre @ L' @ [p]" and post = post and cd = "cd - 1" and popped = True]
        obtain R' where rr: "aquicksort v ((pre @ L' @ [p]) @ R @ post) (r + 1) pr (cd - 1) True =
            (pre @ L' @ [p]) @ R' @ post" "mset R' = mset R" "sorted (map ?key R')"
          unfolding r1 prR' by blast
        have "aquicksort v ts pl pr cd popped = pre @ L' @ p # R' @ post"
          using unf l(1) rr(1) by simp
        with combine [OF l(2,3) rr(2,3)] show ?thesis
          by (simp only: ts_def pl_def pr_def)
      next
        case False
        with nh big ps rb(1,2) have unf: "aquicksort v ts pl pr cd popped =
            aquicksort v (aquicksort v ts1 (r + 1) pr (cd - 1) False) pl (r - 1) (cd - 1) True"
          by (subst aquicksort.simps) auto
        have r1: "r + 1 = length (pre @ L @ [p])" using d(2) by simp
        from less.hyps [OF lR d(4), where pre = "pre @ L @ [p]" and post = post and cd = "cd - 1" and popped = False]
        obtain R' where rr: "aquicksort v ((pre @ L @ [p]) @ R @ post) (r + 1) pr (cd - 1) False =
            (pre @ L @ [p]) @ R' @ post" "mset R' = mset R" "sorted (map ?key R')"
          unfolding r1 prR by blast
        from less.hyps [OF lL d(3), where pre = pre and post = "p # R' @ post" and cd = "cd - 1" and popped = True]
        obtain L' where l: "aquicksort v (pre @ L @ p # R' @ post) pl (r - 1) (cd - 1) True =
            pre @ L' @ p # R' @ post" "mset L' = mset L" "sorted (map ?key L')"
          unfolding pl_def rb(3) by blast
        have "aquicksort v ts pl pr cd popped = pre @ L' @ p # R' @ post"
          using unf l(1) rr(1) d(1) by simp
        with combine [OF l(2,3) rr(2,3)] show ?thesis
          by (simp only: ts_def pl_def pr_def)
      qed
    qed
  qed
qed

lemma np_argsort_sorts:
  "mset (np_argsort v) = mset [0 ..< length v] \<and> sorted (map (\<lambda>i. v ! i) (np_argsort v))"
proof (cases "v = []")
  case True
  have "aquicksort [] [] 0 0 0 True = []"
    by (subst aquicksort.simps) (simp add: insertion_sort_range_def)
  then show ?thesis using True by (simp add: np_argsort_def npy_get_msb.simps)
next
  case False
  then have ne: "[0 ..< length v] \<noteq> []" by simp
  from aquicksort_window [OF ne, of v "[]" "[]" "2 * int (npy_get_msb (length v))" True]
  show ?thesis by (auto simp add: np_argsort_def)
qed

subsection \<open>The projection\<close>

lemma fancy_index_Inr:
  "fancy_index a idx = Inr r \<longleftrightarrow> (\<forall>i\<in>set idx. i < length a) \<and> r = map (\<lambda>i. a ! i) idx"
  by (auto simp add: fancy_index_def)

lemma zip4_map:
  "zip (map a idx) (zip (map b idx) (zip (map c idx) (map d idx))) =
     map (\<lambda>i. (a i, b i, c i, d i)) idx"
  by (induction idx) simp_all

lemma project_position_valid:
  assumes "\<forall>i\<in>set (perf_onset_idx prev c p). i < length (chord p)"
    and "\<forall>i\<in>set (perf_onset_idx prev c p). message_ok (projected_note vel_min vel_max prev c p i)"
  shows "project_position vel_min vel_max prev c p =
           Inr (eq_onset_of prev c p,
                map (\<lambda>i. on_msg (projected_note vel_min vel_max prev c p i)) (perf_onset_idx prev c p),
                map (\<lambda>i. off_msg (projected_note vel_min vel_max prev c p i)) (perf_onset_idx prev c p))"
proof -
  let ?idx = "perf_onset_idx prev c p"
  have 1: "fancy_index (perf_onset_of prev c p) ?idx = Inr (map (\<lambda>i. perf_onset_of prev c p ! i) ?idx)"
    using assms(1) by (simp add: fancy_index_def perf_onset_of_def)
  have 2: "fancy_index (map pitch (chord p)) ?idx = Inr (map (\<lambda>i. pitch (chord p ! i)) ?idx)"
    using assms(1) by (simp add: fancy_index_def)
  have 3: "fancy_index (map (perf_duration_of c) (chord p)) ?idx =
             Inr (map (\<lambda>i. perf_duration_of c (chord p ! i)) ?idx)"
    using assms(1) by (simp add: fancy_index_def)
  have 4: "fancy_index (map (perf_vel_of vel_min vel_max c) (chord p)) ?idx =
             Inr (map (\<lambda>i. perf_vel_of vel_min vel_max c (chord p ! i)) ?idx)"
    using assms(1) by (simp add: fancy_index_def)
  have ok: "list_all message_ok
      (map (\<lambda>i. (pitch (chord p ! i), perf_onset_of prev c p ! i,
                 perf_duration_of c (chord p ! i), perf_vel_of vel_min vel_max c (chord p ! i))) ?idx)"
    using assms(2) by (simp add: list_all_iff projected_note_def)
  show ?thesis
    unfolding project_position_def 1 2 3 4
    using ok by (simp add: zip4_map projected_note_def o_def)
qed

lemma project_position_invalid:
  assumes "\<forall>i\<in>set (perf_onset_idx prev c p). i < length (chord p)"
    and "\<not> (\<forall>i\<in>set (perf_onset_idx prev c p). message_ok (projected_note vel_min vel_max prev c p i))"
  shows "project_position vel_min vel_max prev c p = Inl ValueError"
proof -
  let ?idx = "perf_onset_idx prev c p"
  have 1: "fancy_index (perf_onset_of prev c p) ?idx = Inr (map (\<lambda>i. perf_onset_of prev c p ! i) ?idx)"
    using assms(1) by (simp add: fancy_index_def perf_onset_of_def)
  have 2: "fancy_index (map pitch (chord p)) ?idx = Inr (map (\<lambda>i. pitch (chord p ! i)) ?idx)"
    using assms(1) by (simp add: fancy_index_def)
  have 3: "fancy_index (map (perf_duration_of c) (chord p)) ?idx =
             Inr (map (\<lambda>i. perf_duration_of c (chord p ! i)) ?idx)"
    using assms(1) by (simp add: fancy_index_def)
  have 4: "fancy_index (map (perf_vel_of vel_min vel_max c) (chord p)) ?idx =
             Inr (map (\<lambda>i. perf_vel_of vel_min vel_max c (chord p ! i)) ?idx)"
    using assms(1) by (simp add: fancy_index_def)
  have ok: "\<not> list_all message_ok
      (map (\<lambda>i. (pitch (chord p ! i), perf_onset_of prev c p ! i,
                 perf_duration_of c (chord p ! i), perf_vel_of vel_min vel_max c (chord p ! i))) ?idx)"
    using assms(2) by (simp add: list_all_iff projected_note_def)
  show ?thesis
    unfolding project_position_def 1 2 3 4
    using ok by (simp add: zip4_map projected_note_def o_def)
qed

lemma project_position_Inr:
  assumes "project_position vel_min vel_max prev c p = Inr r"
  shows "\<forall>i\<in>set (perf_onset_idx prev c p). i < length (chord p)"
proof (rule ccontr)
  assume "\<not> ?thesis"
  then have "fancy_index (perf_onset_of prev c p) (perf_onset_idx prev c p) = Inl IndexError"
    by (simp add: fancy_index_def perf_onset_of_def)
  with assms show False
    by (simp add: project_position_def)
qed

lemma project_position_Inr_eq:
  assumes "project_position vel_min vel_max prev c p = Inr r"
  shows "r = (eq_onset_of prev c p,
              map (\<lambda>i. on_msg (projected_note vel_min vel_max prev c p i)) (perf_onset_idx prev c p),
              map (\<lambda>i. off_msg (projected_note vel_min vel_max prev c p i)) (perf_onset_idx prev c p))"
proof (cases "\<forall>i\<in>set (perf_onset_idx prev c p). message_ok (projected_note vel_min vel_max prev c p i)")
  case True
  from project_position_valid [OF project_position_Inr [OF assms] True] assms show ?thesis by simp
next
  case False
  from project_position_invalid [OF project_position_Inr [OF assms] False] assms show ?thesis by simp
qed

lemma perf_onset_idx_small:
  assumes "length (chord p) \<le> 16"
  shows "perf_onset_idx prev c p =
           sort_key (\<lambda>i. perf_onset_of prev c p ! i) [0 ..< length (chord p)]"
  using assms np_argsort_small [of "perf_onset_of prev c p"]
  by (simp add: perf_onset_idx_def perf_onset_of_def)

lemma perf_onset_idx_perm:
  "mset (perf_onset_idx prev c p) = mset [0 ..< length (chord p)]"
  using np_argsort_sorts [of "perf_onset_of prev c p"]
  by (simp add: perf_onset_idx_def perf_onset_of_def)

lemma perf_onset_idx_sorted:
  "sorted (map (\<lambda>i. perf_onset_of prev c p ! i) (perf_onset_idx prev c p))"
  using np_argsort_sorts [of "perf_onset_of prev c p"]
  by (simp add: perf_onset_idx_def)

lemma perf_onset_idx_bound:
  "\<forall>i\<in>set (perf_onset_idx prev c p). i < length (chord p)"
proof -
  have "set (perf_onset_idx prev c p) = set [0 ..< length (chord p)]"
    using perf_onset_idx_perm by (rule mset_eq_setD)
  then show ?thesis by simp
qed

lemma message_ok_iff:
  "(\<forall>i\<in>set (perf_onset_idx prev c p). message_ok (projected_note vel_min vel_max prev c p i)) \<longleftrightarrow>
   position_ok vel_min vel_max c p"
proof -
  have s: "set (perf_onset_idx prev c p) = {0 ..< length (chord p)}"
    using mset_eq_setD [OF perf_onset_idx_perm [of prev c p]] by simp
  have "(\<forall>i\<in>set (perf_onset_idx prev c p). message_ok (projected_note vel_min vel_max prev c p i)) \<longleftrightarrow>
        (\<forall>i < length (chord p). data_byte (perf_vel_of vel_min vel_max c (chord p ! i)) \<and>
           data_byte (pitch (chord p ! i)))"
    unfolding s by (auto simp add: message_ok_def projected_note_def)
  also have "\<dots> \<longleftrightarrow> position_ok vel_min vel_max c p"
    unfolding position_ok_def by (metis in_set_conv_nth)
  finally show ?thesis .
qed

lemma project_position_total:
  "position_ok vel_min vel_max c p \<Longrightarrow>
   project_position vel_min vel_max prev c p =
     Inr (eq_onset_of prev c p,
          map (\<lambda>i. on_msg (projected_note vel_min vel_max prev c p i)) (perf_onset_idx prev c p),
          map (\<lambda>i. off_msg (projected_note vel_min vel_max prev c p i)) (perf_onset_idx prev c p))"
  using project_position_valid [OF perf_onset_idx_bound, of prev c p vel_min vel_max]
  by (simp add: message_ok_iff)

lemma project_position_bad:
  "\<not> position_ok vel_min vel_max c p \<Longrightarrow>
   project_position vel_min vel_max prev c p = Inl ValueError"
  using project_position_invalid [OF perf_onset_idx_bound, of prev c p vel_min vel_max]
  by (simp add: message_ok_iff)

lemma score_ok_position:
  assumes "score_ok vel_min vel_max ps" and "p \<in> set ps"
  shows "position_ok vel_min vel_max c p"
  unfolding position_ok_def
proof (intro ballI conjI)
  fix n assume n: "n \<in> set (chord p)"
  from assms n show "data_byte (pitch n)" by (simp add: score_ok_def)
  from assms(1) have b: "0 \<le> vel_min" "vel_min \<le> vel_max" "vel_max \<le> 127"
    by (simp_all add: score_ok_def)
  from perf_vel_band [OF b(2), of c n] b show "data_byte (perf_vel_of vel_min vel_max c n)"
    by (simp add: data_byte_def)
qed

lemma position_ok_unit:
  "\<forall>n\<in>set (chord p). vt n = 1 \<and> vd n = 0 \<and> data_byte (pitch n) \<Longrightarrow> vel c = 64 \<Longrightarrow>
   position_ok 30 110 c p"
  by (simp add: position_ok_def perf_vel_of_unit data_byte_def)

text \<open>
  C5, amended: for every score position whose pitches and performed velocities are MIDI
  data bytes the projection succeeds (for any other position the constructor of the
  messages raises ValueError), and the note-on and note-off messages are built from the
  pitch, onset, duration and velocity arrays all indexed by the one index array that
  \<^verbatim>\<open>np.argsort\<close> returns for the performed onsets. That index array is a permutation of the
  notes that is ascending in performed onset. For a position of at most 16 notes it is
  moreover the stable sort: notes of equal onset stay in their original array order. (From
  17 notes on numpy's default sort partitions the array and the order of equal onsets is
  not kept.) Two notes with onsets 2.0 and 1.5 are emitted with the onset-1.5 note first
  (the witness).
\<close>

theorem position_emission_order:
  "project_position vel_min vel_max prev c p =
     (if position_ok vel_min vel_max c p
      then Inr (eq_onset_of prev c p,
                map (\<lambda>i. on_msg (projected_note vel_min vel_max prev c p i)) (perf_onset_idx prev c p),
                map (\<lambda>i. off_msg (projected_note vel_min vel_max prev c p i)) (perf_onset_idx prev c p))
      else Inl ValueError) \<and>
   mset (perf_onset_idx prev c p) = mset [0 ..< length (chord p)] \<and>
   sorted (map (\<lambda>i. perf_onset_of prev c p ! i) (perf_onset_idx prev c p)) \<and>
   (length (chord p) \<le> 16 \<longrightarrow>
      (\<forall>t. filter (\<lambda>i. perf_onset_of prev c p ! i = t) (perf_onset_idx prev c p) =
           filter (\<lambda>i. perf_onset_of prev c p ! i = t) [0 ..< length (chord p)]))"
proof (intro conjI allI impI)
  show "project_position vel_min vel_max prev c p =
     (if position_ok vel_min vel_max c p
      then Inr (eq_onset_of prev c p,
                map (\<lambda>i. on_msg (projected_note vel_min vel_max prev c p i)) (perf_onset_idx prev c p),
                map (\<lambda>i. off_msg (projected_note vel_min vel_max prev c p i)) (perf_onset_idx prev c p))
      else Inl ValueError)"
    by (simp add: project_position_total project_position_bad)
  show "mset (perf_onset_idx prev c p) = mset [0 ..< length (chord p)]"
    by (rule perf_onset_idx_perm)
  show "sorted (map (\<lambda>i. perf_onset_of prev c p ! i) (perf_onset_idx prev c p))"
    by (rule perf_onset_idx_sorted)
next
  fix t
  assume small: "length (chord p) \<le> 16"
  note idx = perf_onset_idx_small [OF small, of prev c]
  show "filter (\<lambda>i. perf_onset_of prev c p ! i = t) (perf_onset_idx prev c p) =
        filter (\<lambda>i. perf_onset_of prev c p ! i = t) [0 ..< length (chord p)]"
    by (simp only: idx sort_key_stable)
qed

lemma np_argsort_D: "np_argsort [2, 3/2] = [1, 0]"
  by code_simp

lemma np_argsort_equal17:
  "np_argsort [3/2, 3/2, 3/2, 3/2, 3/2, 3/2, 3/2, 3/2, 3/2, 3/2, 3/2, 3/2, 3/2, 3/2, 3/2, 3/2, 3/2] =
     [0, 14, 13, 12, 11, 10, 9, 15, 8, 6, 5, 4, 3, 2, 1, 7, 16]"
  by code_simp

lemma perf_onset_chordD: "perf_onset_of (1/2) \<lparr>vel = 64, tempo = 1\<rparr> chordD = [2, 3/2]"
  by (simp add: perf_onset_of_def chordD_def eq_onset_of_def note_at_def)

lemma perf_onset_idx_chordD: "perf_onset_idx (1/2) \<lparr>vel = 64, tempo = 1\<rparr> chordD = [1, 0]"
  by (simp add: perf_onset_idx_def perf_onset_chordD np_argsort_D)

lemma perf_onset_chord17:
  "perf_onset_of (1/2) \<lparr>vel = 64, tempo = 1\<rparr> chord17 =
     [3/2, 3/2, 3/2, 3/2, 3/2, 3/2, 3/2, 3/2, 3/2, 3/2, 3/2, 3/2, 3/2, 3/2, 3/2, 3/2, 3/2]"
  by (simp add: perf_onset_of_def chord17_def eq_onset_of_def note_at_def)

lemma perf_onset_idx_chord17:
  "perf_onset_idx (1/2) \<lparr>vel = 64, tempo = 1\<rparr> chord17 =
     [0, 14, 13, 12, 11, 10, 9, 15, 8, 6, 5, 4, 3, 2, 1, 7, 16]"
  by (simp only: perf_onset_idx_def perf_onset_chord17 np_argsort_equal17)

lemma length_chordD: "length (chord chordD) = 2"
  by (simp add: chordD_def)

lemma notes_chordD:
  "projected_note 30 110 (1/2) \<lparr>vel = 64, tempo = 1\<rparr> chordD 0 = (60, 2, 1, 64)"
  "projected_note 30 110 (1/2) \<lparr>vel = 64, tempo = 1\<rparr> chordD (Suc 0) = (62, 3/2, 1, 64)"
  unfolding projected_note_def perf_onset_chordD
  by (simp_all add: perf_vel_of_unit perf_duration_of_def chordD_def note_at_def)

theorem position_emission_order_witness:
  "project_position 30 110 (1/2) \<lparr>vel = 64, tempo = 1\<rparr> chordD =
     Inr (2,
          [\<lparr>mtype = NoteOn, velocity = 64, mnote = 62, time = 3/2\<rparr>,
           \<lparr>mtype = NoteOn, velocity = 64, mnote = 60, time = 2\<rparr>],
          [\<lparr>mtype = NoteOff, velocity = 64, mnote = 62, time = 5/2\<rparr>,
           \<lparr>mtype = NoteOff, velocity = 64, mnote = 60, time = 3\<rparr>]) \<and>
   position_ok 30 110 \<lparr>vel = 64, tempo = 1\<rparr> chordD \<and>
   length (chord chordD) \<le> 16 \<and>
   filter (\<lambda>i. perf_onset_of (1/2) \<lparr>vel = 64, tempo = 1\<rparr> chordD ! i = 2)
     (perf_onset_idx (1/2) \<lparr>vel = 64, tempo = 1\<rparr> chordD) = [0]"
proof -
  let ?c = "\<lparr>vel = 64, tempo = 1\<rparr>"
  have len: "length (chord chordD) \<le> 16" by (simp add: length_chordD)
  have ok: "position_ok 30 110 ?c chordD"
    by (rule position_ok_unit) (simp_all add: chordD_def note_at_def data_byte_def)
  note t = position_emission_order [of 30 110 "1/2" ?c chordD]
  from t ok have "project_position 30 110 (1/2) ?c chordD =
     Inr (eq_onset_of (1/2) ?c chordD,
          map (\<lambda>i. on_msg (projected_note 30 110 (1/2) ?c chordD i)) (perf_onset_idx (1/2) ?c chordD),
          map (\<lambda>i. off_msg (projected_note 30 110 (1/2) ?c chordD i)) (perf_onset_idx (1/2) ?c chordD))"
    by simp
  then have r: "project_position 30 110 (1/2) ?c chordD = Inr (2,
          [\<lparr>mtype = NoteOn, velocity = 64, mnote = 62, time = 3/2\<rparr>,
           \<lparr>mtype = NoteOn, velocity = 64, mnote = 60, time = 2\<rparr>],
          [\<lparr>mtype = NoteOff, velocity = 64, mnote = 62, time = 5/2\<rparr>,
           \<lparr>mtype = NoteOff, velocity = 64, mnote = 60, time = 3\<rparr>])"
    unfolding perf_onset_idx_chordD
    by (simp add: notes_chordD on_msg_def off_msg_def) (simp add: eq_onset_of_def chordD_def)
  from t len
  have "filter (\<lambda>i. perf_onset_of (1/2) ?c chordD ! i = 2) (perf_onset_idx (1/2) ?c chordD) =
        filter (\<lambda>i. perf_onset_of (1/2) ?c chordD ! i = 2) [0 ..< length (chord chordD)]"
    by blast
  also have "\<dots> = [0]"
    unfolding length_chordD perf_onset_chordD by (simp add: upt_rec)
  finally show ?thesis using r len ok by simp
qed

lemma length_chord17: "length (chord chord17) = 17"
  by (simp add: chord17_def)

lemma pitch_chord17:
  "map (\<lambda>i. pitch (chord chord17 ! i)) [0, 14, 13, 12, 11, 10, 9, 15, 8, 6, 5, 4, 3, 2, 1, 7, 16] =
     [60, 74, 73, 72, 71, 70, 69, 75, 68, 66, 65, 64, 63, 62, 61, 67, 76]"
  by (simp add: chord17_def note_at_def)

lemma mnote_on_msg: "mnote (on_msg (p, ot, d, v)) = p"
  by (simp add: on_msg_def)

lemma time_on_msg: "time (on_msg (p, ot, d, v)) = ot"
  by (simp add: on_msg_def)

text \<open>
  C5 as stated fails: \<^verbatim>\<open>np.argsort\<close> is called with its default kind, which is not a stable
  sort. For a position of 17 notes with the same performed onset 1.5 and the pitches 60 to
  76 in array order, the notes are emitted in the pitch order 60, 74, 73, 72, 71, 70, 69,
  75, 68, 66, 65, 64, 63, 62, 61, 67, 76: ties are not broken by original array order.
\<close>

theorem position_emission_order_counterexample:
  "\<not> isl (project_position 30 110 (1/2) \<lparr>vel = 64, tempo = 1\<rparr> chord17) \<and>
   map time (fst (snd (projr (project_position 30 110 (1/2) \<lparr>vel = 64, tempo = 1\<rparr> chord17)))) =
     [3/2, 3/2, 3/2, 3/2, 3/2, 3/2, 3/2, 3/2, 3/2, 3/2, 3/2, 3/2, 3/2, 3/2, 3/2, 3/2, 3/2] \<and>
   map pitch (chord chord17) =
     [60, 61, 62, 63, 64, 65, 66, 67, 68, 69, 70, 71, 72, 73, 74, 75, 76] \<and>
   map mnote (fst (snd (projr (project_position 30 110 (1/2) \<lparr>vel = 64, tempo = 1\<rparr> chord17)))) =
     [60, 74, 73, 72, 71, 70, 69, 75, 68, 66, 65, 64, 63, 62, 61, 67, 76]"
proof -
  let ?c = "\<lparr>vel = 64, tempo = 1\<rparr>"
  let ?ons = "fst (snd (projr (project_position 30 110 (1/2) ?c chord17)))"
  have ok: "position_ok 30 110 ?c chord17"
    by (rule position_ok_unit) (simp_all add: chord17_def note_at_def data_byte_def)
  note total = project_position_total [OF ok, of "1/2"]
  have ons: "?ons = map (\<lambda>i. on_msg (projected_note 30 110 (1/2) ?c chord17 i))
                 [0, 14, 13, 12, 11, 10, 9, 15, 8, 6, 5, 4, 3, 2, 1, 7, 16]"
    unfolding total perf_onset_idx_chord17
    by simp
  have t: "map time ?ons =
     [3/2, 3/2, 3/2, 3/2, 3/2, 3/2, 3/2, 3/2, 3/2, 3/2, 3/2, 3/2, 3/2, 3/2, 3/2, 3/2, 3/2]"
    unfolding ons by (simp add: projected_note_def time_on_msg perf_onset_chord17)
  have m: "map mnote ?ons = map (\<lambda>i. pitch (chord chord17 ! i))
                 [0, 14, 13, 12, 11, 10, 9, 15, 8, 6, 5, 4, 3, 2, 1, 7, 16]"
    unfolding ons by (simp add: projected_note_def mnote_on_msg)
  have p: "map pitch (chord chord17) =
     [60, 61, 62, 63, 64, 65, 66, 67, 68, 69, 70, 71, 72, 73, 74, 75, 76]"
    by (simp add: chord17_def note_at_def)
  have i: "\<not> isl (project_position 30 110 (1/2) ?c chord17)"
    unfolding total by simp
  from m have m': "map mnote ?ons =
      [60, 74, 73, 72, 71, 70, 69, 75, 68, 66, 65, 64, 63, 62, 61, 67, 76]"
    by (simp only: pitch_chord17)
  from i t p m' show ?thesis
    by (intro conjI)
qed

section \<open>Completed runs: note-ons and note-offs\<close>

lemma balanced_send_on:
  "balanced ons offs sent \<Longrightarrow>
   balanced (fst (send_due c ons sent)) offs (snd (send_due c ons sent))"
  by (cases ons) (auto simp add: balanced_def send_due_def sent_keys_def on_time_def)

lemma balanced_send_off:
  "balanced ons offs sent \<Longrightarrow>
   balanced ons (fst (send_due c offs sent)) (snd (send_due c offs sent))"
  by (cases offs) (auto simp add: balanced_def send_due_def sent_keys_def on_time_def)

lemma balanced_dispatch:
  "balanced ons offs sent \<Longrightarrow> dispatch clk ons offs sent = Some (clk', offs', sent') \<Longrightarrow>
   balanced [] offs' sent'"
proof (induction clk ons offs sent rule: dispatch.induct)
  case (1 clk offs sent)
  then show ?case by simp
next
  case (2 m ons offs sent)
  then show ?case by simp
next
  case (3 c clk m ons offs sent)
  show ?case
  proof (cases offs)
    case Nil
    with "3.prems" have "balanced (fst (send_due c (m # ons) sent)) [] (snd (send_due c (m # ons) sent))"
      using balanced_send_on [of "m # ons" "[]" sent c] by simp
    with "3.IH"(1) [OF Nil] "3.prems"(2) Nil show ?thesis by simp
  next
    case (Cons f fs)
    show ?thesis
    proof (cases clk)
      case Nil
      with Cons "3.prems"(2) show ?thesis by simp
    next
      case (Cons c2 clk2)
      note clk = this
      let ?ons1 = "fst (send_due c (m # ons) sent)"
      let ?sent1 = "snd (send_due c (m # ons) sent)"
      from "3.prems"(1) have "balanced ?ons1 offs ?sent1"
        by (rule balanced_send_on)
      then have "balanced ?ons1 (fst (send_due c2 offs ?sent1)) (snd (send_due c2 offs ?sent1))"
        by (rule balanced_send_off)
      with "3.IH"(2) [OF \<open>offs = f # fs\<close> clk] "3.prems"(2) \<open>offs = f # fs\<close> clk
      show ?thesis by simp
    qed
  qed
qed

lemma balanced_drain:
  "balanced [] offs sent \<Longrightarrow> drain clk offs sent = Some (clk', offs', sent') \<Longrightarrow>
   offs' = [] \<and> balanced [] [] sent'"
proof (induction clk offs sent rule: drain.induct)
  case (1 clk sent)
  then show ?case by simp
next
  case (2 f fs sent)
  then show ?case by simp
next
  case (3 c clk f fs sent)
  from "3.prems"(1)
  have "balanced [] (fst (send_due c (f # fs) sent)) (snd (send_due c (f # fs) sent))"
    by (rule balanced_send_off)
  with "3.IH" "3.prems"(2) show ?case by simp
qed

lemma projected_messages:
  assumes "project_position vel_min vel_max prev c p = Inr (e, ons, new_offs)"
  shows "(\<forall>m\<in>set ons. mtype m = NoteOn) \<and> (\<forall>m\<in>set new_offs. mtype m = NoteOff) \<and>
         map note_key ons = map note_key new_offs"
proof -
  from project_position_Inr_eq [OF assms]
  have ons: "ons = map (\<lambda>i. on_msg (projected_note vel_min vel_max prev c p i)) (perf_onset_idx prev c p)"
    and offs: "new_offs = map (\<lambda>i. off_msg (projected_note vel_min vel_max prev c p i)) (perf_onset_idx prev c p)"
    by simp_all
  have k: "\<And>t. note_key (on_msg t) = note_key (off_msg t)"
    by (simp add: note_key_def on_msg_def off_msg_def split: prod.splits)
  have "\<And>t. mtype (on_msg t) = NoteOn" and "\<And>t. mtype (off_msg t) = NoteOff"
    by (simp_all add: on_msg_def off_msg_def split: prod.splits)
  with k show ?thesis
    unfolding ons offs by (simp add: o_def)
qed

lemma balanced_project:
  assumes "balanced [] offs sent"
    and "project_position vel_min vel_max prev c p = Inr (e, ons, new_offs)"
  shows "balanced ons (sort_key time (offs @ new_offs)) sent"
proof -
  from projected_messages [OF assms(2)]
  have 1: "\<forall>m\<in>set ons. mtype m = NoteOn" and 2: "\<forall>m\<in>set new_offs. mtype m = NoteOff"
    and 3: "map note_key ons = map note_key new_offs"
    by simp_all
  have "mset (map note_key (sort_key time (offs @ new_offs))) =
        mset (map note_key offs) + mset (map note_key new_offs)"
    by simp
  with assms(1) 1 2 3 show ?thesis
    by (auto simp add: balanced_def)
qed

lemma balanced_play_positions:
  "balanced [] offs sent \<Longrightarrow>
   play_positions vel_min vel_max ctl k ps clk prev offs sent = Done (clk', prev', offs', sent') \<Longrightarrow>
   balanced [] offs' sent'"
proof (induction ps arbitrary: k clk prev offs sent)
  case Nil
  then show ?case by simp
next
  case (Cons p ps)
  from Cons.prems(2) obtain e ons new_offs
    where pr: "project_position vel_min vel_max prev (ctl k) p = Inr (e, ons, new_offs)"
    by (auto split: sum.splits)
  with Cons.prems(2) obtain clk1 offs1 sent1
    where d: "dispatch clk ons (sort_key time (offs @ new_offs)) sent = Some (clk1, offs1, sent1)"
      and rest: "play_positions vel_min vel_max ctl (Suc k) ps clk1 e offs1 sent1 =
                   Done (clk', prev', offs', sent')"
    by (auto split: option.splits)
  from balanced_project [OF Cons.prems(1) pr]
  have "balanced ons (sort_key time (offs @ new_offs)) sent" .
  from balanced_dispatch [OF this d] have "balanced [] offs1 sent1" .
  from Cons.IH [OF this rest] show ?case .
qed

text \<open>
  C3, amended: for every run that completes (all score positions dispatched, the queue
  drained), the note-off queue is empty at the end, the note-ons sent and the note-offs sent
  match one to one in pitch and velocity, so that every note-on sent has its note-off
  sent, and every message is sent at a clock reading at or after its scheduled time (a
  note-off: onset plus duration). That a note-off is sent after its own note-on is not
  part of it.
\<close>

theorem run_note_offs:
  assumes "BasisMixerMidiThread_run vel_min vel_max d ctl clk = Done (sent, offs, e)"
  shows "offs = [] \<and>
         sent_keys NoteOn sent = sent_keys NoteOff sent \<and>
         (\<forall>(c, m)\<in>set sent. time m \<le> c)"
proof -
  from assms obtain clk1 offs1 sent1 clk2
    where pp: "play_positions vel_min vel_max ctl 0 (score_positions d) clk 0.5 [] [] =
                 Done (clk1, e, offs1, sent1)"
      and dr: "drain clk1 offs1 sent1 = Some (clk2, offs, sent)"
    by (auto simp add: BasisMixerMidiThread_run_def split: outcome.splits option.splits)
  have "balanced [] [] []"
    by (simp add: balanced_def sent_keys_def on_time_def)
  from balanced_play_positions [OF this pp] have "balanced [] offs1 sent1" .
  from balanced_drain [OF this dr] show ?thesis
    by (simp add: balanced_def on_time_def)
qed

lemma np_argsort_11: "np_argsort [1, 1] = [0, 1]"
  by code_simp

lemma np_argsort_single: "np_argsort [x] = [0]"
  by (simp add: np_argsort_def aquicksort.simps npy_get_msb.simps insertion_sort_range_def)

lemma perf_vel_64: "perf_vel_of 30 110 surf1 (note_at k) = 64"
  "perf_vel_of 30 110 surf1 ((note_at k)\<lparr>dur := x\<rparr>) = 64"
  by (simp_all add: perf_vel_of_unit surf1_def note_at_def)

lemma perf_onset_chordE: "perf_onset_of (1/2) surf1 chordE = [1, 1]"
  by (simp add: perf_onset_of_def chordE_def eq_onset_of_def note_at_def surf1_def)

lemma perf_onset_idx_chordE: "perf_onset_idx (1/2) surf1 chordE = [0, 1]"
  by (simp only: perf_onset_idx_def perf_onset_chordE np_argsort_11)

lemma notes_chordE:
  "projected_note 30 110 (1/2) surf1 chordE 0 = (60, 1, 1, 64)"
  "projected_note 30 110 (1/2) surf1 chordE (Suc 0) = (62, 1, 0, 64)"
  unfolding projected_note_def perf_onset_chordE
  by (simp_all add: chordE_def perf_vel_64, simp_all add: perf_duration_of_def note_at_def surf1_def)

lemma project_chordE:
  "project_position 30 110 (1/2) surf1 chordE = Inr (1, [Aon, Bon], [Aoff, Boff])"
proof -
  have "position_ok 30 110 surf1 chordE"
    by (rule position_ok_unit) (simp_all add: chordE_def note_at_def data_byte_def surf1_def)
  from project_position_total [OF this, of "1/2"] show ?thesis
    unfolding perf_onset_idx_chordE
    by (simp add: notes_chordE on_msg_def off_msg_def Aon_def Aoff_def Bon_def Boff_def)
      (simp add: eq_onset_of_def chordE_def surf1_def)
qed

lemma sort_offs_E: "sort_key time ([] @ [Aoff, Boff]) = [Boff, Aoff]"
  by (simp add: Aoff_def Boff_def)

lemma dispatch_E:
  "dispatch clkE [Aon, Bon] [Boff, Aoff] [] =
     Some ([5/2], [Aoff], [(1, Aon), (5/4, Boff), (3/2, Bon)])"
  by (simp add: clkE_def send_due_def Aon_def Bon_def Aoff_def Boff_def)

lemma drain_E:
  "drain [5/2] [Aoff] [(1, Aon), (5/4, Boff), (3/2, Bon)] =
     Some ([], [], [(1, Aon), (5/4, Boff), (3/2, Bon), (5/2, Aoff)])"
  by (simp add: send_due_def Aoff_def)

lemma score_positions_single: "score_positions [(k, p)] = [p]"
  by (simp add: score_positions_def unique_onsets_def)

lemma play_E:
  "play_positions 30 110 (\<lambda>k. surf1) 0 [chordE] clkE (1/2) [] [] =
     Done ([5/2], 1, [Aoff], [(1, Aon), (5/4, Boff), (3/2, Bon)])"
  by (simp add: project_chordE sort_offs_E [simplified] dispatch_E del: dispatch.simps)

lemma run_E:
  "BasisMixerMidiThread_run 30 110 [(0, chordE)] (\<lambda>k. surf1) clkE =
     Done ([(1, Aon), (5/4, Boff), (3/2, Bon), (5/2, Aoff)], [], 1)"
  unfolding BasisMixerMidiThread_run_def score_positions_single
  by (simp add: play_E drain_E del: play_positions.simps drain.simps)

text \<open>
  C3 as stated fails: the note-off of a note is queued when the position is projected, not
  when its note-on is sent, and both queues are served in the same pass of the loop. For a
  chord of two notes with onset 1, the second of duration 0, the pass that sends the first
  note-on (pitch 60) also sends the note-off of pitch 62, since its time 1 has come; the
  note-on of pitch 62 follows one pass later and no note-off for it comes after.
\<close>

theorem run_note_offs_counterexample:
  "BasisMixerMidiThread_run 30 110 [(0, chordE)] (\<lambda>k. surf1) clkE =
     Done ([(1, Aon), (5/4, Boff), (3/2, Bon), (5/2, Aoff)], [], 1) \<and>
   mnote Bon = 62 \<and> mtype Bon = NoteOn \<and> mnote Boff = 62 \<and> mtype Boff = NoteOff \<and>
   mnote Aoff = 60 \<and> mnote Aon = 60"
  by (simp add: run_E) (simp add: Aon_def Aoff_def Bon_def Boff_def)

lemma project_single:
  "position_ok vel_min vel_max c \<lparr>ioi = i, lbpr = l, chord = [n]\<rparr> \<Longrightarrow>
   project_position vel_min vel_max prev c \<lparr>ioi = i, lbpr = l, chord = [n]\<rparr> =
     Inr (eq_onset_of prev c \<lparr>ioi = i, lbpr = l, chord = [n]\<rparr>,
          [on_msg (projected_note vel_min vel_max prev c \<lparr>ioi = i, lbpr = l, chord = [n]\<rparr> 0)],
          [off_msg (projected_note vel_min vel_max prev c \<lparr>ioi = i, lbpr = l, chord = [n]\<rparr> 0)])"
proof -
  assume ok: "position_ok vel_min vel_max c \<lparr>ioi = i, lbpr = l, chord = [n]\<rparr>"
  have idx: "perf_onset_idx prev c \<lparr>ioi = i, lbpr = l, chord = [n]\<rparr> = [0]"
    by (simp add: perf_onset_idx_def perf_onset_of_def np_argsort_single)
  from project_position_total [OF ok, of prev] show ?thesis
    by (simp add: idx)
qed

lemma position_ok_single:
  "data_byte k \<Longrightarrow> position_ok 30 110 surf1 \<lparr>ioi = i, lbpr = l, chord = [(note_at k)\<lparr>dur := x\<rparr>]\<rparr>"
  "data_byte k \<Longrightarrow> position_ok 30 110 surf1 \<lparr>ioi = i, lbpr = l, chord = [note_at k]\<rparr>"
  by (rule position_ok_unit, simp_all add: note_at_def surf1_def)+

lemma project_chordW1:
  "project_position 30 110 (1/2) surf1 chordW1 = Inr (1, [Aon], [Aoff])"
  unfolding chordW1_def
  apply (subst project_single)
   apply (simp add: position_ok_single data_byte_def)
  apply (simp add: eq_onset_of_def projected_note_def perf_onset_of_def on_msg_def off_msg_def
      perf_vel_64 perf_duration_of_def Aon_def Aoff_def)
  apply (simp add: note_at_def surf1_def)
  done

lemma project_chordW2:
  "project_position 30 110 1 surf1 chordW2 = Inr (2, [Con], [Coff])"
  unfolding chordW2_def
  apply (subst project_single)
   apply (simp add: position_ok_single data_byte_def)
  apply (simp add: eq_onset_of_def projected_note_def perf_onset_of_def on_msg_def off_msg_def
      perf_vel_64 perf_duration_of_def Con_def Coff_def)
  apply (simp add: note_at_def surf1_def)
  done

lemma score_positions_W: "score_positions [(1, chordW2), (0, chordW1)] = [chordW1, chordW2]"
  by (simp add: score_positions_def unique_onsets_def)

lemma dispatch_W1:
  "dispatch clkW [Aon] [Aoff] [] = Some ([2, 21/10, 11/5, 13/5], [Aoff], [(1, Aon)])"
  by (simp add: clkW_def send_due_def Aon_def Aoff_def)

lemma dispatch_W2:
  "dispatch [2, 21/10, 11/5, 13/5] [Con] [Aoff, Coff] [(1, Aon)] =
     Some ([11/5, 13/5], [Coff], [(1, Aon), (2, Con), (21/10, Aoff)])"
  by (simp add: send_due_def Con_def Aoff_def)

lemma drain_W:
  "drain [11/5, 13/5] [Coff] [(1, Aon), (2, Con), (21/10, Aoff)] =
     Some ([], [], [(1, Aon), (2, Con), (21/10, Aoff), (13/5, Coff)])"
  by (simp add: send_due_def Coff_def)

lemma sort_offs_W: "sort_key time ([Aoff] @ [Coff]) = [Aoff, Coff]"
  by (simp add: Aoff_def Coff_def)

lemma play_W:
  "play_positions 30 110 (\<lambda>k. surf1) 0 [chordW1, chordW2] clkW (1/2) [] [] =
     Done ([11/5, 13/5], 2, [Coff], [(1, Aon), (2, Con), (21/10, Aoff)])"
  by (simp add: project_chordW1 project_chordW2 dispatch_W1 dispatch_W2
      sort_offs_W [simplified] del: dispatch.simps)

lemma run_W:
  "BasisMixerMidiThread_run 30 110 [(1, chordW2), (0, chordW1)] (\<lambda>k. surf1) clkW =
     Done ([(1, Aon), (2, Con), (21/10, Aoff), (13/5, Coff)], [], 2)"
  unfolding BasisMixerMidiThread_run_def score_positions_W
  by (simp add: play_W drain_W del: play_positions.simps drain.simps)

theorem run_note_offs_witness:
  "BasisMixerMidiThread_run 30 110 [(1, chordW2), (0, chordW1)] (\<lambda>k. surf1) clkW =
     Done ([(1, Aon), (2, Con), (21/10, Aoff), (13/5, Coff)], [], 2) \<and>
   sent_keys NoteOn [(1, Aon), (2, Con), (21/10, Aoff), (13/5, Coff)] =
     sent_keys NoteOff [(1, Aon), (2, Con), (21/10, Aoff), (13/5, Coff)] \<and>
   sent_keys NoteOn [(1, Aon), (2, Con), (21/10, Aoff), (13/5, Coff)] = {#(60, 64), (62, 64)#}"
proof -
  from run_note_offs [OF run_W]
  have "sent_keys NoteOn [(1, Aon), (2, Con), (21/10, Aoff), (13/5, Coff)] =
        sent_keys NoteOff [(1, Aon), (2, Con), (21/10, Aoff), (13/5, Coff)]"
    by simp
  moreover have "sent_keys NoteOn [(1, Aon), (2, Con), (21/10, Aoff), (13/5, Coff)] =
                   {#(60, 64), (62, 64)#}"
    by (simp add: sent_keys_def note_key_def Aon_def Con_def Aoff_def Coff_def)
  ultimately show ?thesis using run_W by simp
qed

section \<open>Stopping a run\<close>

subsection \<open>What a completed run has sent\<close>

lemma note_ons_send_on:
  "\<forall>m\<in>set ons. mtype m = NoteOn \<Longrightarrow>
   note_ons (snd (send_due c ons sent)) @ fst (send_due c ons sent) = note_ons sent @ ons"
  by (cases ons) (simp_all add: send_due_def note_ons_def)

lemma note_ons_send_off:
  "\<forall>m\<in>set offs. mtype m = NoteOff \<Longrightarrow> note_ons (snd (send_due c offs sent)) = note_ons sent"
  by (cases offs) (simp_all add: send_due_def note_ons_def)

lemma send_due_subset: "set (fst (send_due c q sent)) \<subseteq> set q"
  by (cases q) (auto simp add: send_due_def)

lemma dispatch_note_ons:
  "\<forall>m\<in>set ons. mtype m = NoteOn \<Longrightarrow> \<forall>m\<in>set offs. mtype m = NoteOff \<Longrightarrow>
   dispatch clk ons offs sent = Some (clk', offs', sent') \<Longrightarrow>
   note_ons sent' = note_ons sent @ ons \<and> (\<forall>m\<in>set offs'. mtype m = NoteOff)"
proof (induction clk ons offs sent rule: dispatch.induct)
  case (1 clk offs sent)
  then show ?case by simp
next
  case (2 m ons offs sent)
  then show ?case by simp
next
  case (3 c clk m ons offs sent)
  let ?ons1 = "fst (send_due c (m # ons) sent)"
  let ?sent1 = "snd (send_due c (m # ons) sent)"
  have on1: "\<forall>x\<in>set ?ons1. mtype x = NoteOn"
    using "3.prems"(1) send_due_subset [of c "m # ons" sent] by blast
  have n1: "note_ons ?sent1 @ ?ons1 = note_ons sent @ (m # ons)"
    using "3.prems"(1) by (rule note_ons_send_on)
  show ?case
  proof (cases offs)
    case Nil
    with "3.prems"(3) have d: "dispatch clk ?ons1 [] ?sent1 = Some (clk', offs', sent')" by simp
    from "3.IH"(1) [OF Nil on1 _ d] have "note_ons sent' = note_ons ?sent1 @ ?ons1"
      and "\<forall>m\<in>set offs'. mtype m = NoteOff" by simp_all
    with n1 show ?thesis by simp
  next
    case (Cons f fs)
    note offs = this
    show ?thesis
    proof (cases clk)
      case Nil
      with offs "3.prems"(3) show ?thesis by simp
    next
      case (Cons c2 clk2)
      let ?offs2 = "fst (send_due c2 (f # fs) ?sent1)"
      let ?sent2 = "snd (send_due c2 (f # fs) ?sent1)"
      from "3.prems"(3) offs Cons
      have d: "dispatch clk2 ?ons1 ?offs2 ?sent2 = Some (clk', offs', sent')" by simp
      have off2: "\<forall>x\<in>set ?offs2. mtype x = NoteOff"
        using "3.prems"(2) offs send_due_subset [of c2 "f # fs" ?sent1] by blast
      have n2: "note_ons ?sent2 = note_ons ?sent1"
        using "3.prems"(2) offs by (intro note_ons_send_off) simp
      from "3.IH"(2) [OF offs Cons on1 off2 d]
      have "note_ons sent' = note_ons ?sent2 @ ?ons1" and "\<forall>m\<in>set offs'. mtype m = NoteOff"
        by simp_all
      with n1 n2 show ?thesis by simp
    qed
  qed
qed

lemma drain_note_ons:
  "\<forall>m\<in>set offs. mtype m = NoteOff \<Longrightarrow> drain clk offs sent = Some (clk', offs', sent') \<Longrightarrow>
   note_ons sent' = note_ons sent"
proof (induction clk offs sent rule: drain.induct)
  case (1 clk sent)
  then show ?case by simp
next
  case (2 f fs sent)
  then show ?case by simp
next
  case (3 c clk f fs sent)
  let ?offs1 = "fst (send_due c (f # fs) sent)"
  let ?sent1 = "snd (send_due c (f # fs) sent)"
  have "\<forall>x\<in>set ?offs1. mtype x = NoteOff"
    using "3.prems"(1) send_due_subset [of c "f # fs" sent] by blast
  moreover from "3.prems"(2) have "drain clk ?offs1 ?sent1 = Some (clk', offs', sent')" by simp
  ultimately have "note_ons sent' = note_ons ?sent1" by (rule "3.IH")
  also have "\<dots> = note_ons sent" using "3.prems"(1) by (rule note_ons_send_off)
  finally show ?case .
qed

lemma play_positions_note_ons:
  "\<forall>m\<in>set offs. mtype m = NoteOff \<Longrightarrow>
   play_positions vel_min vel_max ctl k ps clk prev offs sent = Done (clk', prev', offs', sent') \<Longrightarrow>
   note_ons sent' = note_ons sent @ all_on_messages vel_min vel_max ctl k ps prev \<and>
   (\<forall>m\<in>set offs'. mtype m = NoteOff)"
proof (induction ps arbitrary: k clk prev offs sent)
  case Nil
  then show ?case by simp
next
  case (Cons p ps)
  let ?ons = "map (\<lambda>i. on_msg (projected_note vel_min vel_max prev (ctl k) p i))
                (perf_onset_idx prev (ctl k) p)"
  let ?new = "map (\<lambda>i. off_msg (projected_note vel_min vel_max prev (ctl k) p i))
                (perf_onset_idx prev (ctl k) p)"
  let ?e = "eq_onset_of prev (ctl k) p"
  from Cons.prems(2) obtain r where pr0: "project_position vel_min vel_max prev (ctl k) p = Inr r"
    by (auto split: sum.splits)
  from project_position_Inr_eq [OF pr0] pr0
  have pr: "project_position vel_min vel_max prev (ctl k) p = Inr (?e, ?ons, ?new)"
    by simp
  with Cons.prems(2) obtain clk1 offs1 sent1
    where d: "dispatch clk ?ons (sort_key time (offs @ ?new)) sent = Some (clk1, offs1, sent1)"
      and rest: "play_positions vel_min vel_max ctl (Suc k) ps clk1 ?e offs1 sent1 =
                   Done (clk', prev', offs', sent')"
    by (auto split: option.splits)
  from projected_messages [OF pr]
  have on: "\<forall>m\<in>set ?ons. mtype m = NoteOn" and new: "\<forall>m\<in>set ?new. mtype m = NoteOff"
    by simp_all
  from new Cons.prems(1) have off: "\<forall>m\<in>set (sort_key time (offs @ ?new)). mtype m = NoteOff"
    by auto
  from dispatch_note_ons [OF on off d]
  have 1: "note_ons sent1 = note_ons sent @ ?ons" and off1: "\<forall>m\<in>set offs1. mtype m = NoteOff"
    by simp_all
  from Cons.IH [OF off1 rest] 1 show ?case by simp
qed

subsection \<open>Every run can be completed\<close>

text \<open>The clock readings that a run has used up do not matter for what it does with later
  ones, and readings that are late enough end every loop: a run that is still polling
  only waits for the clock.\<close>

lemma dispatch_extend:
  "dispatch clk ons offs sent = Some (clk', offs', sent') \<Longrightarrow>
   dispatch (clk @ ext) ons offs sent = Some (clk' @ ext, offs', sent')"
proof (induction clk ons offs sent rule: dispatch.induct)
  case (1 clk offs sent)
  then show ?case by simp
next
  case (2 m ons offs sent)
  then show ?case by simp
next
  case (3 c clk m ons offs sent)
  show ?case
  proof (cases offs)
    case Nil
    with "3.prems" "3.IH"(1) show ?thesis by simp
  next
    case (Cons f fs)
    note offs = this
    show ?thesis
    proof (cases clk)
      case Nil
      with offs "3.prems" show ?thesis by simp
    next
      case (Cons c2 clk2)
      with offs "3.prems" "3.IH"(2) [OF offs Cons] show ?thesis by simp
    qed
  qed
qed

lemma drain_extend:
  "drain clk offs sent = Some (clk', offs', sent') \<Longrightarrow>
   drain (clk @ ext) offs sent = Some (clk' @ ext, offs', sent')"
proof (induction clk offs sent rule: drain.induct)
  case (1 clk sent)
  then show ?case by simp
next
  case (2 f fs sent)
  then show ?case by simp
next
  case (3 c clk f fs sent)
  then show ?case by simp
qed

lemma time_bound: "\<exists>T::real. \<forall>m\<in>set (ms :: message list). time m \<le> T"
proof (induction ms)
  case Nil
  then show ?case by simp
next
  case (Cons m ms)
  then obtain T where "\<forall>x\<in>set ms. time x \<le> T" by blast
  then have "\<forall>x\<in>set (m # ms). time x \<le> max T (time m)" by auto
  then show ?case by blast
qed

lemma dispatch_late:
  "\<forall>c\<in>set clk. \<forall>m\<in>set ons. time m \<le> c \<Longrightarrow> 2 * length ons \<le> length clk \<Longrightarrow>
   \<exists>r. dispatch clk ons offs sent = Some r"
proof (induction clk ons offs sent rule: dispatch.induct)
  case (1 clk offs sent)
  then show ?case by simp
next
  case (2 m ons offs sent)
  then show ?case by simp
next
  case (3 c clk m ons offs sent)
  from "3.prems"(1) have due: "time m \<le> c" by simp
  then have s: "send_due c (m # ons) sent = (ons, sent @ [(c, m)])"
    by (simp add: send_due_def)
  show ?case
  proof (cases offs)
    case Nil
    from "3.prems" have "\<forall>c\<in>set clk. \<forall>m\<in>set ons. time m \<le> c" "2 * length ons \<le> length clk"
      by simp_all
    with "3.IH"(1) [OF Nil] s Nil show ?thesis by simp
  next
    case (Cons f fs)
    note offs = this
    from "3.prems"(2) obtain c2 clk2 where clk: "clk = c2 # clk2"
      by (cases clk) simp_all
    from "3.prems" clk
    have "\<forall>c\<in>set clk2. \<forall>m\<in>set ons. time m \<le> c" "2 * length ons \<le> length clk2"
      by simp_all
    with "3.IH"(2) [OF offs clk] s offs clk show ?thesis by simp
  qed
qed

lemma dispatch_from_nil: "\<exists>ext r. dispatch ext ons offs sent = Some r"
proof -
  obtain T where T: "\<forall>m\<in>set ons. time m \<le> T" using time_bound by blast
  have "\<exists>r. dispatch (replicate (2 * length ons) T) ons offs sent = Some r"
    by (rule dispatch_late) (use T in simp_all)
  then show ?thesis by blast
qed

lemma dispatch_completes: "\<exists>ext r. dispatch (clk @ ext) ons offs sent = Some r"
proof (induction clk ons offs sent rule: dispatch.induct)
  case (1 clk offs sent)
  then show ?case by simp
next
  case (2 m ons offs sent)
  then show ?case using dispatch_from_nil [of "m # ons" offs sent] by simp
next
  case (3 c clk m ons offs sent)
  show ?case
  proof (cases offs)
    case Nil
    with "3.IH"(1) show ?thesis by simp
  next
    case (Cons f fs)
    note offs = this
    show ?thesis
    proof (cases clk)
      case Nil
      let ?ons1 = "fst (send_due c (m # ons) sent)"
      let ?sent1 = "snd (send_due c (m # ons) sent)"
      from dispatch_from_nil [of ?ons1 "fst (send_due c (f # fs) ?sent1)"
          "snd (send_due c (f # fs) ?sent1)"]
      obtain ext r where "dispatch ext ?ons1 (fst (send_due c (f # fs) ?sent1))
          (snd (send_due c (f # fs) ?sent1)) = Some r" by blast
      then have "dispatch ((c # clk) @ (c # ext)) (m # ons) offs sent = Some r"
        using offs Nil by simp
      then show ?thesis by blast
    next
      case (Cons c2 clk2)
      with offs "3.IH"(2) [OF offs Cons] show ?thesis by simp
    qed
  qed
qed

lemma drain_late:
  "\<forall>c\<in>set clk. \<forall>m\<in>set offs. time m \<le> c \<Longrightarrow> length offs \<le> length clk \<Longrightarrow>
   \<exists>r. drain clk offs sent = Some r"
proof (induction clk offs sent rule: drain.induct)
  case (1 clk sent)
  then show ?case by simp
next
  case (2 f fs sent)
  then show ?case by simp
next
  case (3 c clk f fs sent)
  from "3.prems"(1) have "time f \<le> c" by simp
  then have s: "send_due c (f # fs) sent = (fs, sent @ [(c, f)])"
    by (simp add: send_due_def)
  from "3.prems" have "\<forall>c\<in>set clk. \<forall>m\<in>set fs. time m \<le> c" "length fs \<le> length clk"
    by simp_all
  with "3.IH" s show ?case by simp
qed

lemma drain_from_nil: "\<exists>ext r. drain ext offs sent = Some r"
proof -
  obtain T where T: "\<forall>m\<in>set offs. time m \<le> T" using time_bound by blast
  have "\<exists>r. drain (replicate (length offs) T) offs sent = Some r"
    by (rule drain_late) (use T in simp_all)
  then show ?thesis by blast
qed

lemma drain_completes: "\<exists>ext r. drain (clk @ ext) offs sent = Some r"
proof (induction clk offs sent rule: drain.induct)
  case (1 clk sent)
  then show ?case by simp
next
  case (2 f fs sent)
  then show ?case using drain_from_nil [of "f # fs" sent] by simp
next
  case (3 c clk f fs sent)
  then show ?case by simp
qed

lemma play_positions_extend:
  "play_positions vel_min vel_max ctl k ps clk prev offs sent = Done (clk', prev', offs', sent') \<Longrightarrow>
   play_positions vel_min vel_max ctl k ps (clk @ ext) prev offs sent =
     Done (clk' @ ext, prev', offs', sent')"
proof (induction ps arbitrary: k clk prev offs sent)
  case Nil
  then show ?case by simp
next
  case (Cons p ps)
  from Cons.prems obtain e ons new_offs
    where pr: "project_position vel_min vel_max prev (ctl k) p = Inr (e, ons, new_offs)"
    by (auto split: sum.splits)
  with Cons.prems obtain clk1 offs1 sent1
    where d: "dispatch clk ons (sort_key time (offs @ new_offs)) sent = Some (clk1, offs1, sent1)"
      and rest: "play_positions vel_min vel_max ctl (Suc k) ps clk1 e offs1 sent1 =
                   Done (clk', prev', offs', sent')"
    by (auto split: option.splits)
  from dispatch_extend [OF d, of ext] Cons.IH [OF rest] pr show ?case by simp
qed

lemma play_positions_completes:
  "score_ok vel_min vel_max ps \<Longrightarrow>
   \<exists>ext r. play_positions vel_min vel_max ctl k ps (clk @ ext) prev offs sent = Done r"
proof (induction ps arbitrary: k clk prev offs sent)
  case Nil
  then show ?case by simp
next
  case (Cons p ps)
  from Cons.prems have tl: "score_ok vel_min vel_max ps" by (simp add: score_ok_def)
  from Cons.prems have okp: "position_ok vel_min vel_max (ctl k) p"
    by (intro score_ok_position [of vel_min vel_max "p # ps"]) simp_all
  let ?ons = "map (\<lambda>i. on_msg (projected_note vel_min vel_max prev (ctl k) p i))
                (perf_onset_idx prev (ctl k) p)"
  let ?new = "map (\<lambda>i. off_msg (projected_note vel_min vel_max prev (ctl k) p i))
                (perf_onset_idx prev (ctl k) p)"
  let ?e = "eq_onset_of prev (ctl k) p"
  have pr: "project_position vel_min vel_max prev (ctl k) p = Inr (?e, ?ons, ?new)"
    using okp by (rule project_position_total)
  from dispatch_completes [of clk ?ons "sort_key time (offs @ ?new)" sent]
  obtain ext1 clk1 offs1 sent1
    where d: "dispatch (clk @ ext1) ?ons (sort_key time (offs @ ?new)) sent = Some (clk1, offs1, sent1)"
    by (metis prod_cases3)
  from Cons.IH [OF tl, of "Suc k" clk1 ?e offs1 sent1]
  obtain ext2 r where rest: "play_positions vel_min vel_max ctl (Suc k) ps (clk1 @ ext2) ?e offs1 sent1 = Done r"
    by blast
  from dispatch_extend [OF d, of ext2] rest pr
  have "play_positions vel_min vel_max ctl k (p # ps) (clk @ (ext1 @ ext2)) prev offs sent = Done r"
    by simp
  then show ?case by blast
qed

lemma run_completes:
  assumes "score_ok vel_min vel_max (score_positions d)"
  shows "\<exists>ext r. BasisMixerMidiThread_run vel_min vel_max d ctl (clk @ ext) = Done r"
proof -
  from play_positions_completes [OF assms, of ctl 0 clk "0.5" "[]" "[]"]
  obtain ext1 clk1 prev offs sent
    where pp: "play_positions vel_min vel_max ctl 0 (score_positions d) (clk @ ext1) 0.5 [] [] =
                 Done (clk1, prev, offs, sent)"
    by (metis prod_cases4)
  from drain_completes [of clk1 offs sent]
  obtain ext2 clk2 offs2 sent2 where dr: "drain (clk1 @ ext2) offs sent = Some (clk2, offs2, sent2)"
    by (metis prod_cases3)
  from play_positions_extend [OF pp, of ext2] dr
  have "BasisMixerMidiThread_run vel_min vel_max d ctl (clk @ (ext1 @ ext2)) = Done (sent2, offs2, prev)"
    by (simp add: BasisMixerMidiThread_run_def)
  then show ?thesis by blast
qed

lemma run_extend:
  assumes "BasisMixerMidiThread_run vel_min vel_max d ctl clk = Done r"
  shows "BasisMixerMidiThread_run vel_min vel_max d ctl (clk @ ext) = Done r"
proof -
  obtain sent offs e where r: "r = (sent, offs, e)" by (cases r)
  from assms r obtain clk1 offs1 sent1 clk2
    where pp: "play_positions vel_min vel_max ctl 0 (score_positions d) clk 0.5 [] [] =
                 Done (clk1, e, offs1, sent1)"
      and dr: "drain clk1 offs1 sent1 = Some (clk2, offs, sent)"
    by (auto simp add: BasisMixerMidiThread_run_def split: outcome.splits option.splits)
  from play_positions_extend [OF pp, of ext] drain_extend [OF dr, of ext] r show ?thesis
    by (simp add: BasisMixerMidiThread_run_def)
qed

lemma play_positions_not_raised:
  "score_ok vel_min vel_max ps \<Longrightarrow>
   play_positions vel_min vel_max ctl k ps clk prev offs sent \<noteq> Raised e"
proof (induction ps arbitrary: k clk prev offs sent)
  case Nil
  then show ?case by simp
next
  case (Cons p ps)
  from Cons.prems have tl: "score_ok vel_min vel_max ps" by (simp add: score_ok_def)
  from Cons.prems have okp: "position_ok vel_min vel_max (ctl k) p"
    by (intro score_ok_position [of vel_min vel_max "p # ps"]) simp_all
  from Cons.IH [OF tl] show ?case
    by (simp add: project_position_total [OF okp] split: option.splits)
qed

lemma run_not_raised:
  assumes "score_ok vel_min vel_max (score_positions d)"
  shows "BasisMixerMidiThread_run vel_min vel_max d ctl clk \<noteq> Raised e"
  using play_positions_not_raised [OF assms, of ctl 0 clk "0.5" "[]" "[]"]
  by (auto simp add: BasisMixerMidiThread_run_def split: outcome.splits option.splits)

subsection \<open>A run with a stop request\<close>

lemma perf_onset_chordS1: "perf_onset_of (1/2) surf1 chordS1 = [1, 1]"
  by (simp add: perf_onset_of_def chordS1_def eq_onset_of_def note_at_def surf1_def)

lemma perf_onset_idx_chordS1: "perf_onset_idx (1/2) surf1 chordS1 = [0, 1]"
  by (simp only: perf_onset_idx_def perf_onset_chordS1 np_argsort_11)

lemma notes_chordS1:
  "projected_note 30 110 (1/2) surf1 chordS1 0 = (60, 1, 2, 64)"
  "projected_note 30 110 (1/2) surf1 chordS1 (Suc 0) = (62, 1, 2, 64)"
  unfolding projected_note_def perf_onset_chordS1
  by (simp_all add: chordS1_def perf_vel_64, simp_all add: perf_duration_of_def note_at_def surf1_def)

lemma project_chordS1:
  "project_position 30 110 (1/2) surf1 chordS1 = Inr (1, [Son60, Son62], [Soff60, Soff62])"
proof -
  have "position_ok 30 110 surf1 chordS1"
    by (rule position_ok_unit) (simp_all add: chordS1_def note_at_def data_byte_def surf1_def)
  from project_position_total [OF this, of "1/2"] show ?thesis
    unfolding perf_onset_idx_chordS1
    by (simp add: notes_chordS1 on_msg_def off_msg_def Son60_def Soff60_def Son62_def Soff62_def)
      (simp add: eq_onset_of_def chordS1_def surf1_def)
qed

lemma project_chordS2:
  "project_position 30 110 1 surf1 chordS2 = Inr (2, [Son64], [Soff64])"
  unfolding chordS2_def
  apply (subst project_single)
   apply (simp add: position_ok_single data_byte_def)
  apply (simp add: eq_onset_of_def projected_note_def perf_onset_of_def on_msg_def off_msg_def
      perf_vel_64 perf_duration_of_def Son64_def Soff64_def)
  apply (simp add: note_at_def surf1_def)
  done

lemma score_positions_S: "score_positions [(0, chordS1), (1, chordS2)] = [chordS1, chordS2]"
  by (simp add: score_positions_def unique_onsets_def)

lemma sort_offs_S1: "sort_key time ([] @ [Soff60, Soff62]) = [Soff60, Soff62]"
  by (simp add: Soff60_def Soff62_def)

lemma sort_offs_S2: "sort_key time ([Soff60, Soff62] @ [Soff64]) = [Soff60, Soff62, Soff64]"
  by (simp add: Soff60_def Soff62_def Soff64_def)

lemma dispatch_S1:
  "dispatch clkS [Son60, Son62] [Soff60, Soff62] [] =
     Some ([8/5, 31/10, 16/5, 33/10, 17/5], [Soff60, Soff62], [(1, Son60), (6/5, Son62)])"
  by (simp add: clkS_def send_due_def Son60_def Son62_def Soff60_def Soff62_def)

lemma dispatch_S2:
  "dispatch [8/5, 31/10, 16/5, 33/10, 17/5] [Son64] [Soff60, Soff62, Soff64]
     [(1, Son60), (6/5, Son62)] =
     Some ([17/5], [Soff64],
       [(1, Son60), (6/5, Son62), (31/10, Soff60), (16/5, Son64), (33/10, Soff62)])"
  by (simp add: send_due_def Son64_def Soff60_def Soff62_def Soff64_def)

lemma drain_S:
  "drain [17/5] [Soff64]
     [(1, Son60), (6/5, Son62), (31/10, Soff60), (16/5, Son64), (33/10, Soff62)] =
     Some ([], [],
       [(1, Son60), (6/5, Son62), (31/10, Soff60), (16/5, Son64), (33/10, Soff62), (17/5, Soff64)])"
  by (simp add: send_due_def Soff64_def)

lemma play_S:
  "play_positions 30 110 (\<lambda>k. surf1) 0 [chordS1, chordS2] clkS (1/2) [] [] =
     Done ([17/5], 2, [Soff64],
       [(1, Son60), (6/5, Son62), (31/10, Soff60), (16/5, Son64), (33/10, Soff62)])"
  by (simp add: project_chordS1 project_chordS2 dispatch_S1 dispatch_S2
      sort_offs_S1 [simplified] sort_offs_S2 [simplified] del: dispatch.simps)

lemma run_S:
  "BasisMixerMidiThread_run 30 110 [(0, chordS1), (1, chordS2)] (\<lambda>k. surf1) clkS =
     Done ([(1, Son60), (6/5, Son62), (31/10, Soff60), (16/5, Son64), (33/10, Soff62),
            (17/5, Soff64)], [], 2)"
  unfolding BasisMixerMidiThread_run_def score_positions_S
  by (simp add: play_S drain_S del: play_positions.simps drain.simps)

text \<open>
  C4 as stated fails: \<^verbatim>\<open>run\<close> never looks for a stop request. In a run over two positions
  the two note-ons of the first position are sent at the clock readings 1 and 1.2, and
  their note-offs are pending until 3. A stop is requested at 1.5. The run goes on: the
  note-on of the second position (pitch 64, scheduled for 2) is sent at the reading 3.2.
\<close>

theorem stop_not_checked_counterexample:
  "BasisMixerMidiThread_run 30 110 [(0, chordS1), (1, chordS2)] (\<lambda>k. surf1) clkS =
     Done ([(1, Son60), (6/5, Son62), (31/10, Soff60), (16/5, Son64), (33/10, Soff62),
            (17/5, Soff64)], [], 2) \<and>
   mtype Son64 = NoteOn \<and> mnote Son64 = 64 \<and> (3/2 :: real) < 16/5 \<and>
   \<not> sent_before (3/2)
       [(1, Son60), (6/5, Son62), (31/10, Soff60), (16/5, Son64), (33/10, Soff62), (17/5, Soff64)]"
  by (simp add: run_S) (simp add: sent_before_def Son64_def)

text \<open>
  C4, amended: a stop request does not reach a run. When a playback run has reached its
  terminal state, it has sent the note-on of every note of every score position, in the
  order in which they were built, and the note-off of every note-on sent; the note-off
  queue is empty. So the note-offs that are pending when a stop is requested are still
  sent, and so are the note-ons of the positions that follow. A run whose score has data
  bytes for pitches, with a velocity band within 0 to 127, raises nothing and can always
  go on to its terminal state: late enough clock readings end each of its loops.
\<close>

theorem run_sends_every_note:
  "(\<forall>sent offs e.
      BasisMixerMidiThread_run vel_min vel_max d ctl clk = Done (sent, offs, e) \<longrightarrow>
        note_ons sent = all_on_messages vel_min vel_max ctl 0 (score_positions d) 0.5 \<and>
        sent_keys NoteOff sent = sent_keys NoteOn sent \<and> offs = []) \<and>
   (\<forall>r ext. BasisMixerMidiThread_run vel_min vel_max d ctl clk = Done r \<longrightarrow>
      BasisMixerMidiThread_run vel_min vel_max d ctl (clk @ ext) = Done r) \<and>
   (score_ok vel_min vel_max (score_positions d) \<longrightarrow>
      (\<forall>e. BasisMixerMidiThread_run vel_min vel_max d ctl clk \<noteq> Raised e) \<and>
      (\<exists>ext r. BasisMixerMidiThread_run vel_min vel_max d ctl (clk @ ext) = Done r))"
proof (intro conjI allI impI)
  fix sent offs e
  assume run: "BasisMixerMidiThread_run vel_min vel_max d ctl clk = Done (sent, offs, e)"
  then obtain clk1 offs1 sent1 clk2
    where pp: "play_positions vel_min vel_max ctl 0 (score_positions d) clk 0.5 [] [] =
                 Done (clk1, e, offs1, sent1)"
      and dr: "drain clk1 offs1 sent1 = Some (clk2, offs, sent)"
    by (auto simp add: BasisMixerMidiThread_run_def split: outcome.splits option.splits)
  have "\<forall>m\<in>set ([] :: message list). mtype m = NoteOff" by simp
  from play_positions_note_ons [OF this pp]
  have n1: "note_ons sent1 = all_on_messages vel_min vel_max ctl 0 (score_positions d) 0.5"
    and off1: "\<forall>m\<in>set offs1. mtype m = NoteOff"
    by (simp_all add: note_ons_def)
  from drain_note_ons [OF off1 dr] n1
  show "note_ons sent = all_on_messages vel_min vel_max ctl 0 (score_positions d) 0.5" by simp
  have "balanced [] [] []"
    by (simp add: balanced_def sent_keys_def on_time_def)
  from balanced_play_positions [OF this pp] have "balanced [] offs1 sent1" .
  from balanced_drain [OF this dr]
  show "sent_keys NoteOff sent = sent_keys NoteOn sent" and "offs = []"
    by (simp_all add: balanced_def)
next
  fix r ext
  assume "BasisMixerMidiThread_run vel_min vel_max d ctl clk = Done r"
  then show "BasisMixerMidiThread_run vel_min vel_max d ctl (clk @ ext) = Done r"
    by (rule run_extend)
next
  fix e
  assume "score_ok vel_min vel_max (score_positions d)"
  then show "BasisMixerMidiThread_run vel_min vel_max d ctl clk \<noteq> Raised e"
    by (rule run_not_raised)
next
  assume "score_ok vel_min vel_max (score_positions d)"
  then show "\<exists>ext r. BasisMixerMidiThread_run vel_min vel_max d ctl (clk @ ext) = Done r"
    by (rule run_completes)
qed

lemma score_ok_S: "score_ok 30 110 (score_positions [(0, chordS1), (1, chordS2)])"
  unfolding score_positions_S
  by (simp add: score_ok_def chordS1_def chordS2_def note_at_def data_byte_def)

theorem run_sends_every_note_witness:
  "BasisMixerMidiThread_run 30 110 [(0, chordS1), (1, chordS2)] (\<lambda>k. surf1) clkS =
     Done ([(1, Son60), (6/5, Son62), (31/10, Soff60), (16/5, Son64), (33/10, Soff62),
            (17/5, Soff64)], [], 2) \<and>
   note_ons [(1, Son60), (6/5, Son62), (31/10, Soff60), (16/5, Son64), (33/10, Soff62),
             (17/5, Soff64)] = [Son60, Son62, Son64] \<and>
   all_on_messages 30 110 (\<lambda>k. surf1) 0 (score_positions [(0, chordS1), (1, chordS2)]) 0.5 =
     [Son60, Son62, Son64] \<and>
   sent_keys NoteOff [(1, Son60), (6/5, Son62), (31/10, Soff60), (16/5, Son64), (33/10, Soff62),
                      (17/5, Soff64)] = {#(60, 64), (62, 64), (64, 64)#} \<and>
   score_ok 30 110 (score_positions [(0, chordS1), (1, chordS2)]) \<and>
   (\<exists>ext r. BasisMixerMidiThread_run 30 110 [(0, chordS1), (1, chordS2)] (\<lambda>k. surf1)
              (take 3 clkS @ ext) = Done r)"
proof -
  let ?sent = "[(1, Son60), (6/5, Son62), (31/10, Soff60), (16/5, Son64), (33/10, Soff62),
                (17/5, Soff64)]"
  note t = run_sends_every_note [of 30 110 "[(0, chordS1), (1, chordS2)]" "\<lambda>k. surf1" clkS,
      THEN conjunct1, rule_format, OF run_S]
  have n: "note_ons ?sent = [Son60, Son62, Son64]"
    by (simp add: note_ons_def Son60_def Son62_def Son64_def Soff60_def Soff62_def Soff64_def)
  from t n
  have a: "all_on_messages 30 110 (\<lambda>k. surf1) 0 (score_positions [(0, chordS1), (1, chordS2)]) 0.5 =
      [Son60, Son62, Son64]"
    by simp
  have "sent_keys NoteOn ?sent = {#(60, 64), (62, 64), (64, 64)#}"
    by (simp add: sent_keys_def note_key_def Son60_def Son62_def Son64_def Soff60_def Soff62_def
        Soff64_def)
  with t have k: "sent_keys NoteOff ?sent = {#(60, 64), (62, 64), (64, 64)#}"
    by simp
  from run_sends_every_note [of 30 110 "[(0, chordS1), (1, chordS2)]" "\<lambda>k. surf1" "take 3 clkS",
      THEN conjunct2, THEN conjunct2, THEN mp, OF score_ok_S]
  have p: "\<exists>ext r. BasisMixerMidiThread_run 30 110 [(0, chordS1), (1, chordS2)] (\<lambda>k. surf1)
              (take 3 clkS @ ext) = Done r"
    by (rule conjunct2)
  from run_S n a k score_ok_S p show ?thesis by (intro conjI)
qed

section \<open>The accumulator inside a run\<close>

text \<open>The values that \<open>run_eq_onsets\<close> lists are those the loop of \<^verbatim>\<open>run\<close> computes: each
  projection returns \<open>eq_onset_of\<close> of the value before, and a completed run ends with the
  last of them.\<close>

lemma project_position_eq_onset:
  "project_position vel_min vel_max prev c p = Inr (e, ons, new_offs) \<Longrightarrow> e = eq_onset_of prev c p"
  using project_position_Inr_eq [of vel_min vel_max prev c p "(e, ons, new_offs)"]
  by simp

lemma play_positions_accumulator:
  "play_positions vel_min vel_max ctl k ps clk prev offs sent = Done (clk', prev', offs', sent') \<Longrightarrow>
   prev' = last (prev # eq_onsets prev ctl k ps)"
proof (induction ps arbitrary: k clk prev offs sent)
  case Nil
  then show ?case by simp
next
  case (Cons p ps)
  from Cons.prems obtain e ons new_offs
    where pr: "project_position vel_min vel_max prev (ctl k) p = Inr (e, ons, new_offs)"
    by (auto split: sum.splits)
  with Cons.prems obtain clk1 offs1 sent1
    where rest: "play_positions vel_min vel_max ctl (Suc k) ps clk1 e offs1 sent1 =
                   Done (clk', prev', offs', sent')"
    by (auto split: option.splits)
  from project_position_eq_onset [OF pr] have e: "e = eq_onset_of prev (ctl k) p" .
  from Cons.IH [OF rest] e show ?case by simp
qed

lemma run_accumulator:
  assumes "BasisMixerMidiThread_run vel_min vel_max d ctl clk = Done (sent, offs, e)"
  shows "e = last (0.5 # run_eq_onsets ctl d)"
proof -
  from assms obtain clk1 offs1 sent1
    where "play_positions vel_min vel_max ctl 0 (score_positions d) clk 0.5 [] [] =
             Done (clk1, e, offs1, sent1)"
    by (auto simp add: BasisMixerMidiThread_run_def split: outcome.splits option.splits)
  from play_positions_accumulator [OF this] show ?thesis
    by (simp add: run_eq_onsets_def)
qed

end
